theory Spec2Isabelle
  imports Complex_Main "HOL-Library.Option_ord"
begin

section \<open>Scores and tensors\<close>

text \<open>
  A logit is a real number or negative infinity (the \<^verbatim>\<open>filter_value\<close> of
  \<^verbatim>\<open>top_k_top_p_filtering\<close>).  It is modelled as \<^typ>\<open>real option\<close> with the
  order on options in which \<open>None\<close> is the least element: \<open>None\<close> is negative
  infinity, below every \<open>Some x\<close>.  Floating-point rounding, positive infinity and NaN are outside
  the embedding: arithmetic is that of the reals.
\<close>

type_synonym score = "real option"

abbreviation NegInf :: score where
  "NegInf \<equiv> None"

abbreviation Fin :: "real \<Rightarrow> score" where
  "Fin x \<equiv> Some x"

text \<open>
  A 1-D tensor is a list.  Tensors are Python objects handled by reference; the
  store maps each address to the contents of the tensor that lives there.
\<close>

type_synonym addr = nat
type_synonym heap = "addr \<Rightarrow> score list"

datatype error =
    IndexError
  | ShapeMismatch
  | NegativeDimension
  | InvalidTensorData
  | OverflowError
  | InvalidMultinomial
  | NonFiniteProbabilities
  | ModelError
  | ScorerError

section \<open>\<^verbatim>\<open>top_k_top_p_filtering\<close> (run_generation.py, lines 98-126)\<close>

subsection \<open>The top-k stage\<close>

text \<open>
  \<^verbatim>\<open>torch.topk(logits, top_k)[0]\<close>: the \<open>k\<close> largest values, largest first.
\<close>

definition torch_topk :: "score list \<Rightarrow> nat \<Rightarrow> score list" where
  "torch_topk logits k = take k (rev (sort logits))"

text \<open>
  \<^verbatim>\<open>indices_to_remove = logits < torch.topk(logits, top_k)[0][..., -1, None]\<close>:
  a boolean mask over the vocabulary.  It is only computed for
  \<open>0 < top_k \<le> length logits\<close>, where the index \<open>-1\<close> is in range.
\<close>

definition top_k_indices_to_remove :: "score list \<Rightarrow> nat \<Rightarrow> bool list" where
  "top_k_indices_to_remove logits top_k =
     map (\<lambda>x. x < last (torch_topk logits top_k)) logits"

text \<open>\<^verbatim>\<open>logits[mask] = filter_value\<close> with a boolean mask, on the contents.\<close>

definition masked_fill :: "score list \<Rightarrow> bool list \<Rightarrow> score list" where
  "masked_fill logits msk = map (\<lambda>(x, b). if b then NegInf else x) (zip logits msk)"

subsection \<open>The nucleus (top-p) stage\<close>

text \<open>
  \<^verbatim>\<open>torch.sort(logits, descending=True)\<close> returns the sorted values and the indices
  they came from.  Equal values keep the order of their indices, as the library's
  sort leaves them: the indices are sorted stably by ascending value, starting
  from the highest index, and the result is reversed.
\<close>

definition sorted_indices :: "score list \<Rightarrow> nat list" where
  "sorted_indices logits = rev (sort_key (\<lambda>i. logits ! i) (rev [0..<length logits]))"

definition sorted_logits :: "score list \<Rightarrow> score list" where
  "sorted_logits logits = map (\<lambda>i. logits ! i) (sorted_indices logits)"

text \<open>\<^verbatim>\<open>F.softmax(v, dim=-1)\<close>, with \<open>exp (-inf) = 0\<close>.\<close>

fun exp_score :: "score \<Rightarrow> real" where
  "exp_score None = 0"
| "exp_score (Some x) = exp x"

definition softmax :: "score list \<Rightarrow> real list" where
  "softmax v = map (\<lambda>x. exp_score x / sum_list (map exp_score v)) v"

text \<open>\<^verbatim>\<open>torch.cumsum(v, dim=-1)\<close>.\<close>

fun cumsum_from :: "real \<Rightarrow> real list \<Rightarrow> real list" where
  "cumsum_from acc [] = []"
| "cumsum_from acc (x # xs) = (acc + x) # cumsum_from (acc + x) xs"

definition cumsum :: "real list \<Rightarrow> real list" where
  "cumsum v = cumsum_from 0 v"

definition cumulative_probs :: "score list \<Rightarrow> real list" where
  "cumulative_probs logits = cumsum (softmax (sorted_logits logits))"

text \<open>
  Lines 119-122: the mask \<^verbatim>\<open>cumulative_probs > top_p\<close>, shifted right by one
  position, its first entry cleared.  The assignment to index 0 raises on an empty
  tensor; the caller below handles that case.
\<close>

definition shift_right :: "bool list \<Rightarrow> bool list" where
  "shift_right m = False # butlast m"

definition sorted_indices_to_remove :: "score list \<Rightarrow> real \<Rightarrow> bool list" where
  "sorted_indices_to_remove logits top_p =
     shift_right (map (\<lambda>c. c > top_p) (cumulative_probs logits))"

text \<open>\<^verbatim>\<open>sorted_indices[sorted_indices_to_remove]\<close>: the indices selected by the mask.\<close>

definition top_p_indices_to_remove :: "score list \<Rightarrow> real \<Rightarrow> nat list" where
  "top_p_indices_to_remove logits top_p =
     map fst (filter snd (zip (sorted_indices logits) (sorted_indices_to_remove logits top_p)))"

text \<open>\<^verbatim>\<open>logits[indices] = filter_value\<close> with an index tensor, on the contents.\<close>

definition index_fill :: "score list \<Rightarrow> nat list \<Rightarrow> score list" where
  "index_fill logits idxs = fold (\<lambda>i v. v[i := NegInf]) idxs logits"

subsection \<open>The filter\<close>

text \<open>
  The function receives a reference to the logits tensor, assigns into that tensor
  (both assignments are item assignments on \<^verbatim>\<open>logits\<close>) and returns the reference
  it was given.  The assertion \<^verbatim>\<open>logits.dim() == 1\<close> holds by the type of the store.
\<close>

definition top_k_top_p_filtering :: "addr \<Rightarrow> int \<Rightarrow> real \<Rightarrow> heap \<Rightarrow> error + (addr \<times> heap)" where
  "top_k_top_p_filtering logits top_k top_p h =
     (let top_k = min top_k (int (length (h logits)));
          h1 = (if top_k > 0
                then h(logits := masked_fill (h logits)
                                   (top_k_indices_to_remove (h logits) (nat top_k)))
                else h)
      in if top_p > 0
         then (if h1 logits = [] then Inl IndexError
               else Inr (logits,
                      h1(logits := index_fill (h1 logits)
                                     (top_p_indices_to_remove (h1 logits) top_p))))
         else Inr (logits, h1))"

section \<open>\<^verbatim>\<open>sample_sequence\<close> (run_generation.py, lines 129-176)\<close>

subsection \<open>Tensor operations\<close>

text \<open>
  A 2-D tensor of token ids is the list of its rows.
  \<^verbatim>\<open>x.unsqueeze(0).repeat(n, 1)\<close> (and \<^verbatim>\<open>repeat(n, 1, 1)\<close>) puts \<open>n\<close> copies of
  \<open>x\<close> along a new first dimension; a negative count raises, zero gives a tensor
  with no rows.
\<close>

definition repeat_rows :: "int \<Rightarrow> 'a \<Rightarrow> error + 'a list" where
  "repeat_rows n x = (if n < 0 then Inl NegativeDimension else Inr (replicate (nat n) x))"

text \<open>
  \<^verbatim>\<open>torch.cat((a, b), dim=1)\<close> on 2-D tensors: the row counts must agree.
\<close>

definition cat_dim1 :: "'a list list \<Rightarrow> 'a list list \<Rightarrow> error + 'a list list" where
  "cat_dim1 a b =
     (if length a = length b then Inr (map (\<lambda>(r, s). r @ s) (zip a b))
      else Inl ShapeMismatch)"

text \<open>
  \<^verbatim>\<open>torch.tensor(rows)\<close> of a nested list: the rows must have one length.  With
  \<^verbatim>\<open>dtype=torch.long\<close> every entry must be a signed 64-bit integer.
\<close>

definition torch_tensor2 :: "'a list list \<Rightarrow> error + 'a list list" where
  "torch_tensor2 rows =
     (if list_all (\<lambda>r. length r = length (hd rows)) rows then Inr rows
      else Inl InvalidTensorData)"

definition int64 :: "int \<Rightarrow> bool" where
  "int64 x = (- (2 ^ 63) \<le> x \<and> x < 2 ^ 63)"

definition torch_long1 :: "int list \<Rightarrow> error + int list" where
  "torch_long1 xs = (if list_all int64 xs then Inr xs else Inl OverflowError)"

definition torch_long2 :: "int list list \<Rightarrow> error + int list list" where
  "torch_long2 rows =
     (case torch_tensor2 rows of
        Inl e \<Rightarrow> Inl e
      | Inr t \<Rightarrow> if list_all (list_all int64) t then Inr t else Inl OverflowError)"

subsection \<open>The input of the scoring model\<close>

text \<open>
  The keyword arguments passed to the model: a dictionary with the keys below, a
  key that is absent being \<open>None\<close>.
\<close>

record step_input =
  input_ids :: "int list list"
  comet_input :: "int list list list option"
  comet_mask :: "real list list list option"
  perm_mask :: "real list list list option"
  target_mapping :: "real list list list option"

text \<open>
  The scoring model is an external collaborator: a function from its input to
  \<^verbatim>\<open>outputs[0]\<close>, a tensor of shape (batch, positions, vocabulary), or an error.
\<close>

type_synonym scoring_model = "step_input \<Rightarrow> error + real list list list"

text \<open>
  Lines 146-150.  The conditioning is converted and replicated only when
  \<^verbatim>\<open>comet_input\<close> is given; \<^verbatim>\<open>torch.tensor(None)\<close> raises.  The mask is
  converted with \<^verbatim>\<open>dtype=torch.float\<close>, which accepts every number.
\<close>

definition replicate_comet ::
  "int \<Rightarrow> int list list option \<Rightarrow> real list list option
     \<Rightarrow> error + (int list list list \<times> real list list list) option" where
  "replicate_comet num_samples comet_input' comet_mask' =
     (case comet_input' of
        None \<Rightarrow> Inr None
      | Some ci \<Rightarrow>
          (case torch_long2 ci of
             Inl e \<Rightarrow> Inl e
           | Inr ci_t \<Rightarrow>
               (case repeat_rows num_samples ci_t of
                  Inl e \<Rightarrow> Inl e
                | Inr ci_r \<Rightarrow>
                    (case comet_mask' of
                       None \<Rightarrow> Inl InvalidTensorData
                     | Some cm \<Rightarrow>
                         (case torch_tensor2 cm of
                            Inl e \<Rightarrow> Inl e
                          | Inr cm_t \<Rightarrow>
                              (case repeat_rows num_samples cm_t of
                                 Inl e \<Rightarrow> Inl e
                               | Inr cm_r \<Rightarrow> Inr (Some (ci_r, cm_r))))))))"

text \<open>
  Lines 155-167.  In the XLNet branch the dictionary is built anew from
  \<^verbatim>\<open>input_ids\<close>, \<^verbatim>\<open>perm_mask\<close> and \<^verbatim>\<open>target_mapping\<close>; the tensor of zeros
  that is appended has one row.  After the concatenation \<^verbatim>\<open>input_ids.shape[1]\<close>
  is at least 1, so the index \<open>-1\<close> is in range.
\<close>

definition encode_step ::
  "bool \<Rightarrow> (int list list list \<times> real list list list) option \<Rightarrow> int list list
     \<Rightarrow> error + step_input" where
  "encode_step is_xlnet comet generated =
     (let inputs = \<lparr>input_ids = generated, comet_input = None, comet_mask = None,
                     perm_mask = None, target_mapping = None\<rparr>;
          inputs = (case comet of
                      None \<Rightarrow> inputs
                    | Some (ci, cm) \<Rightarrow> inputs\<lparr>comet_input := Some ci, comet_mask := Some cm\<rparr>)
      in if is_xlnet then
           (case cat_dim1 generated [[0]] of
              Inl e \<Rightarrow> Inl e
            | Inr ids \<Rightarrow>
                (let n = length (hd ids);
                     pm = [replicate n ((replicate n 0)[n - 1 := 1])];
                     tm = [[(replicate n 0)[n - 1 := 1]]]
                 in Inr \<lparr>input_ids = ids, comet_input = None, comet_mask = None,
                         perm_mask = Some pm, target_mapping = Some tm\<rparr>))
         else Inr inputs)"

subsection \<open>One step of the loop\<close>

text \<open>
  Line 172, \<^verbatim>\<open>outputs[0][0, -1, :] / temperature\<close>: the last position of the first
  row of the batch, a fresh tensor.  The division is that of the reals; in
  32-bit floating point a quotient can also overflow or round, which the
  embedding leaves out.  Dividing by a temperature of 0 gives
  infinities and NaN, the softmax of which contains NaN, and \<^verbatim>\<open>torch.multinomial\<close>
  rejects such a distribution; as these values are outside the type of scores the
  embedding reports that error here.
\<close>

definition next_token_logits :: "real list list list \<Rightarrow> real \<Rightarrow> error + score list" where
  "next_token_logits out temperature =
     (case out of
        [] \<Rightarrow> Inl IndexError
      | row0 # _ \<Rightarrow>
          (if row0 = [] then Inl IndexError
           else if temperature = 0 then Inl NonFiniteProbabilities
           else Inr (map (\<lambda>x. Fin (x / temperature)) (last row0))))"

text \<open>
  \<^verbatim>\<open>torch.multinomial(probs, num_samples=n)\<close> draws \<open>n\<close> indices without replacement
  (the default).  It raises when \<open>n \<le> 0\<close> or when fewer than \<open>n\<close> categories have
  a positive probability (later versions of the library differ in the second
  case).  The random source is a parameter: \<open>rng i probs n\<close> is the outcome of
  the draw made at step \<open>i\<close>.
\<close>

type_synonym rng = "nat \<Rightarrow> real list \<Rightarrow> nat \<Rightarrow> nat list"

definition multinomial :: "rng \<Rightarrow> nat \<Rightarrow> real list \<Rightarrow> int \<Rightarrow> error + int list" where
  "multinomial draw i probs n =
     (if n \<le> 0 \<or> int (length (filter (\<lambda>p. 0 < p) probs)) < n then Inl InvalidMultinomial
      else Inr (map int (draw i probs (nat n))))"

text \<open>
  What a draw may return: \<open>n\<close> pairwise distinct indices of positive probability.
\<close>

definition valid_draw :: "real list \<Rightarrow> nat \<Rightarrow> nat list \<Rightarrow> bool" where
  "valid_draw probs n ts =
     (length ts = n \<and> distinct ts \<and> list_all (\<lambda>t. t < length probs \<and> 0 < probs ! t) ts)"

definition valid_rng :: "rng \<Rightarrow> bool" where
  "valid_rng draw =
     (\<forall>i probs n. n \<le> length (filter (\<lambda>p. 0 < p) probs) \<longrightarrow> valid_draw probs n (draw i probs n))"

text \<open>A sampler that always returns the first \<open>n\<close> indices of positive probability.\<close>

definition first_rng :: rng where
  "first_rng i probs n = take n (filter (\<lambda>t. 0 < probs ! t) [0..<length probs])"

text \<open>
  Lines 172-174: the distribution the tokens of this step are drawn from.  The
  logits are a fresh tensor, here at address 0 of a store of its own; the filter
  works on that tensor and the softmax reads the tensor the filter returns.
\<close>

definition step_probs :: "real list list list \<Rightarrow> real \<Rightarrow> int \<Rightarrow> real \<Rightarrow> error + real list" where
  "step_probs out temperature top_k top_p =
     (case next_token_logits out temperature of
        Inl e \<Rightarrow> Inl e
      | Inr logits \<Rightarrow>
          (case top_k_top_p_filtering 0 top_k top_p ((\<lambda>_. [])(0 := logits)) of
             Inl e \<Rightarrow> Inl e
           | Inr (filtered_logits, h) \<Rightarrow> Inr (softmax (h filtered_logits))))"

text \<open>
  Lines 169-175: call the model, draw \<^verbatim>\<open>num_samples\<close> tokens and append
  \<^verbatim>\<open>next_token.unsqueeze(0)\<close>, a tensor with one row, to \<^verbatim>\<open>generated\<close>.
\<close>

definition sample_step ::
  "scoring_model \<Rightarrow> rng \<Rightarrow> nat \<Rightarrow> int \<Rightarrow> real \<Rightarrow> int \<Rightarrow> real \<Rightarrow> step_input \<Rightarrow> int list list
     \<Rightarrow> error + int list list" where
  "sample_step model draw i num_samples temperature top_k top_p inputs generated =
     (case model inputs of
        Inl e \<Rightarrow> Inl e
      | Inr out \<Rightarrow>
          (case step_probs out temperature top_k top_p of
             Inl e \<Rightarrow> Inl e
           | Inr probs \<Rightarrow>
               (case multinomial draw i probs num_samples of
                  Inl e \<Rightarrow> Inl e
                | Inr next_token \<Rightarrow> cat_dim1 generated [next_token])))"

subsection \<open>The loop\<close>

text \<open>
  The loop runs \<^verbatim>\<open>range(length)\<close>.  Besides the outcome, the embedding keeps the list
  of the inputs the scoring model has been called with, oldest first, so that the
  number of steps taken can be read off also when the call ends in an error.
\<close>

fun sample_loop ::
  "scoring_model \<Rightarrow> rng \<Rightarrow> int \<Rightarrow> real \<Rightarrow> int \<Rightarrow> real \<Rightarrow> bool
     \<Rightarrow> (int list list list \<times> real list list list) option
     \<Rightarrow> nat \<Rightarrow> nat \<Rightarrow> int list list \<Rightarrow> step_input list
     \<Rightarrow> step_input list \<times> (error + int list list)" where
  "sample_loop model draw num_samples temperature top_k top_p is_xlnet comet 0 i generated calls =
     (calls, Inr generated)"
| "sample_loop model draw num_samples temperature top_k top_p is_xlnet comet (Suc n) i generated calls =
     (case encode_step is_xlnet comet generated of
        Inl e \<Rightarrow> (calls, Inl e)
      | Inr inputs \<Rightarrow>
          (case sample_step model draw i num_samples temperature top_k top_p inputs generated of
             Inl e \<Rightarrow> (calls @ [inputs], Inl e)
           | Inr generated' \<Rightarrow>
               sample_loop model draw num_samples temperature top_k top_p is_xlnet comet n (Suc i)
                 generated' (calls @ [inputs])))"

text \<open>
  Lines 142-152: the context becomes a tensor of 64-bit integers and is replicated
  \<^verbatim>\<open>num_samples\<close> times, then the conditioning is converted; line 154 starts the
  loop.
\<close>

definition sample_sequence ::
  "scoring_model \<Rightarrow> rng \<Rightarrow> int \<Rightarrow> int list \<Rightarrow> int \<Rightarrow> real \<Rightarrow> int \<Rightarrow> real \<Rightarrow> bool
     \<Rightarrow> int list list option \<Rightarrow> real list list option
     \<Rightarrow> step_input list \<times> (error + int list list)" where
  "sample_sequence model draw len context num_samples temperature top_k top_p is_xlnet
       comet_input' comet_mask' =
     (case torch_long1 context of
        Inl e \<Rightarrow> ([], Inl e)
      | Inr context_t \<Rightarrow>
          (case repeat_rows num_samples context_t of
             Inl e \<Rightarrow> ([], Inl e)
           | Inr context_r \<Rightarrow>
               (case replicate_comet num_samples comet_input' comet_mask' of
                  Inl e \<Rightarrow> ([], Inl e)
                | Inr comet \<Rightarrow>
                    sample_loop model draw num_samples temperature top_k top_p is_xlnet comet
                      (nat len) 0 context_r [])))"

section \<open>\<^verbatim>\<open>QGEvalCap.evaluate\<close> (evaluation/eval.py, lines 24-55)\<close>

text \<open>
  A scorer is an external collaborator; \<^verbatim>\<open>compute_score(gts, res)\<close> returns a pair
  \<^verbatim>\<open>(score, scores)\<close> or raises.  The entry of the BLEU scorer carries a list of metric
  names and its score is a list; every other entry carries one name and its score
  is a number.
\<close>

datatype ('g, 'r) scorer =
    ListScorer "'g \<Rightarrow> 'r \<Rightarrow> error + (real list \<times> real list list)" "string list"
  | NumScorer "'g \<Rightarrow> 'r \<Rightarrow> error + (real \<times> real list)" string

text \<open>
  The values stored in \<^verbatim>\<open>scores_dict\<close>: the model key, \<^verbatim>\<open>str(sc)\<close> of a BLEU score,
  or a score as it is.
\<close>

datatype jvalue = Key string | StrOf real | Num real

type_synonym scores_dict = "(string \<times> jvalue) list"

text \<open>\<^verbatim>\<open>d[k] = v\<close> on a dictionary that keeps insertion order.\<close>

fun dict_set :: "scores_dict \<Rightarrow> string \<Rightarrow> jvalue \<Rightarrow> scores_dict" where
  "dict_set [] k v = [(k, v)]"
| "dict_set ((k', v') # d) k v = (if k' = k then (k, v) # d else (k', v') # dict_set d k v)"

text \<open>
  The state of the loop: the list \<^verbatim>\<open>output\<close> (here \<open>output_list\<close>) and the dictionary.  Printing is
  not modelled.
\<close>

record eval_state =
  output_list :: "real list"
  scores_dict :: scores_dict

text \<open>Lines 43-46, the loop over \<^verbatim>\<open>zip(score, scores, method)\<close>.\<close>

fun record_list :: "(real \<times> real list \<times> string) list \<Rightarrow> eval_state \<Rightarrow> eval_state" where
  "record_list [] st = st"
| "record_list ((sc, scs, m) # rest) st =
     record_list rest
       (st\<lparr>output_list := output_list st @ [sc], scores_dict := dict_set (scores_dict st) m (StrOf sc)\<rparr>)"

text \<open>
  Lines 39-50.  There is no exception handler: an exception of \<^verbatim>\<open>compute_score\<close>
  leaves the loop and the method.  Next to the state the embedding keeps, as a record
  of the calls made, the metric names of every scorer whose \<^verbatim>\<open>compute_score\<close> has
  been called, in order.
\<close>

fun run_scorers ::
  "('g, 'r) scorer list \<Rightarrow> 'g \<Rightarrow> 'r \<Rightarrow> string list list \<Rightarrow> eval_state
     \<Rightarrow> string list list \<times> (error + eval_state)" where
  "run_scorers [] gts res called st = (called, Inr st)"
| "run_scorers (ListScorer f ms # rest) gts res called st =
     (case f gts res of
        Inl e \<Rightarrow> (called @ [ms], Inl e)
      | Inr (score, scores) \<Rightarrow>
          run_scorers rest gts res (called @ [ms]) (record_list (zip score (zip scores ms)) st))"
| "run_scorers (NumScorer f m # rest) gts res called st =
     (case f gts res of
        Inl e \<Rightarrow> (called @ [[m]], Inl e)
      | Inr (score, scores) \<Rightarrow>
          run_scorers rest gts res (called @ [[m]])
            (st\<lparr>output_list := output_list st @ [score],
                scores_dict := dict_set (scores_dict st) m (Num score)\<rparr>))"

text \<open>
  The five scorers are parameters.  The results file is the list of the lines
  appended to it, a line being the dictionary that \<^verbatim>\<open>json.dumps\<close> serialises.  The
  result is the record of calls, the file, and the returned list or the exception.
\<close>

definition evaluate ::
  "('g \<Rightarrow> 'r \<Rightarrow> error + (real list \<times> real list list))
     \<Rightarrow> ('g \<Rightarrow> 'r \<Rightarrow> error + (real \<times> real list))
     \<Rightarrow> ('g \<Rightarrow> 'r \<Rightarrow> error + (real \<times> real list))
     \<Rightarrow> ('g \<Rightarrow> 'r \<Rightarrow> error + (real \<times> real list))
     \<Rightarrow> ('g \<Rightarrow> 'r \<Rightarrow> error + (real \<times> real list))
     \<Rightarrow> string \<Rightarrow> 'g \<Rightarrow> 'r \<Rightarrow> scores_dict list
     \<Rightarrow> (string list list \<times> scores_dict list) \<times> (error + real list)" where
  "evaluate bleu meteor rouge cider bert_score model_key gts res results_file =
     (let scorers =
            [ListScorer bleu [''Bleu_1'', ''Bleu_2'', ''Bleu_3'', ''Bleu_4''],
             NumScorer meteor ''METEOR'',
             NumScorer rouge ''ROUGE_L'',
             NumScorer cider ''CIDEr'',
             NumScorer bert_score ''Bert Score''];
          st = \<lparr>output_list = [], scores_dict = [(''model_key'', Key model_key)]\<rparr>
      in case run_scorers scorers gts res [] st of
           (called, Inl e) \<Rightarrow> ((called, results_file), Inl e)
         | (called, Inr st') \<Rightarrow>
             ((called, results_file @ [scores_dict st']), Inr (output_list st')))"

section \<open>Test collaborators\<close>

text \<open>
  A scoring model for the examples: whatever the input, it predicts the same
  logits, at one position, for every row of the batch.
\<close>

definition const_model :: "real list \<Rightarrow> scoring_model" where
  "const_model logits inputs = Inr (map (\<lambda>row. [logits]) (input_ids inputs))"

text \<open>
  A scoring model that, on a batch with at least one row, does not fail and
  returns an output with at least one row, one position and a non-empty
  vocabulary.
\<close>

definition well_shaped :: "scoring_model \<Rightarrow> bool" where
  "well_shaped model =
     (\<forall>inputs. input_ids inputs \<noteq> [] \<longrightarrow>
        (case model inputs of
           Inl e \<Rightarrow> False
         | Inr out \<Rightarrow> out \<noteq> [] \<and> hd out \<noteq> [] \<and> last (hd out) \<noteq> []))"

text \<open>Scorers for the examples: two that succeed and one that raises.\<close>

definition bleu_ok :: "unit \<Rightarrow> unit \<Rightarrow> error + (real list \<times> real list list)" where
  "bleu_ok gts res = Inr ([1, 2, 3, 4], [[], [], [], []])"

definition score_ok :: "real \<Rightarrow> unit \<Rightarrow> unit \<Rightarrow> error + (real \<times> real list)" where
  "score_ok x gts res = Inr (x, [])"

definition score_fails :: "unit \<Rightarrow> unit \<Rightarrow> error + (real \<times> real list)" where
  "score_fails gts res = Inl ScorerError"

section \<open>Evaluating concrete calls\<close>

lemmas filter_eval = top_k_top_p_filtering_def masked_fill_def top_k_indices_to_remove_def
  torch_topk_def sorted_indices_def sorted_logits_def softmax_def cumsum_def
  cumulative_probs_def shift_right_def sorted_indices_to_remove_def
  top_p_indices_to_remove_def index_fill_def

lemmas sample_eval = sample_sequence_def torch_long1_def torch_long2_def int64_def
  repeat_rows_def replicate_comet_def encode_step_def
  cat_dim1_def sample_step_def step_probs_def next_token_logits_def multinomial_def
  first_rng_def torch_tensor2_def const_model_def

section \<open>Properties of the filter\<close>

subsection \<open>Auxiliary facts: the top-k stage\<close>

lemma masked_fill_top_k_eq:
  "masked_fill xs (top_k_indices_to_remove xs k)
     = map (\<lambda>x. if x < last (torch_topk xs k) then NegInf else x) xs"
  by (simp add: masked_fill_def top_k_indices_to_remove_def zip_map2 zip_same_conv_map)

lemma kth_largest_last:
  assumes "0 < k" "k \<le> length xs"
  shows "last (torch_topk xs k) = rev (sort xs) ! (k - 1)"
proof -
  have "length (take k (rev (sort xs))) = k" using assms by simp
  then have "take k (rev (sort xs)) \<noteq> []" using assms by (metis length_0_conv less_numeral_extra(3))
  then have "last (take k (rev (sort xs))) = take k (rev (sort xs)) ! (k - 1)"
    using assms by (simp add: last_conv_nth min_absorb2)
  also have "\<dots> = rev (sort xs) ! (k - 1)" using assms by simp
  finally show ?thesis by (simp add: torch_topk_def)
qed

lemma sorted_desc_nth:
  fixes xs :: "score list"
  assumes "i \<le> j" "j < length xs"
  shows "rev (sort xs) ! j \<le> rev (sort xs) ! i"
  using assms sorted_rev_nth_mono [of "rev (sort xs)" i j] by simp

lemma length_filter_desc:
  fixes xs :: "score list"
  shows "length (filter P (rev (sort xs))) = length (filter P xs)"
  by (simp add: rev_filter [symmetric] filter_sort)

lemma count_ge_kth:
  fixes xs :: "score list"
  assumes "0 < k" "k \<le> length xs"
  shows "k \<le> length (filter (\<lambda>x. rev (sort xs) ! (k - 1) \<le> x) xs)"
proof -
  let ?ys = "rev (sort xs)"
  let ?P = "\<lambda>x. ?ys ! (k - 1) \<le> x"
  have "\<forall>y \<in> set (take k ?ys). ?P y"
  proof
    fix y assume "y \<in> set (take k ?ys)"
    then obtain i where i: "i < k" "y = ?ys ! i"
      using assms by (auto simp: in_set_conv_nth)
    then show "?P y" using sorted_desc_nth[of i "k - 1" xs] assms by simp
  qed
  then have "filter ?P (take k ?ys) = take k ?ys" by simp
  moreover have "filter ?P ?ys = filter ?P (take k ?ys) @ filter ?P (drop k ?ys)"
    by (metis append_take_drop_id filter_append)
  ultimately have "length (filter ?P ?ys) \<ge> length (take k ?ys)"
    by simp
  then show ?thesis using assms by (simp add: length_filter_desc)
qed

lemma count_gt_kth:
  fixes xs :: "score list"
  assumes "0 < k" "k \<le> length xs"
  shows "length (filter (\<lambda>x. rev (sort xs) ! (k - 1) < x) xs) < k"
proof -
  let ?ys = "rev (sort xs)"
  let ?P = "\<lambda>x. ?ys ! (k - 1) < x"
  have "\<forall>y \<in> set (drop (k - 1) ?ys). \<not> ?P y"
  proof
    fix y assume "y \<in> set (drop (k - 1) ?ys)"
    then obtain i where i: "i < length ?ys - (k - 1)" "y = ?ys ! (k - 1 + i)"
      by (auto simp: in_set_conv_nth)
    then have "?ys ! (k - 1 + i) \<le> ?ys ! (k - 1)"
      using sorted_desc_nth[of "k - 1" "k - 1 + i" xs] by simp
    then show "\<not> ?P y" using i(2) by (simp only: not_less)
  qed
  then have "filter ?P (drop (k - 1) ?ys) = []" by simp
  moreover have "filter ?P ?ys = filter ?P (take (k - 1) ?ys) @ filter ?P (drop (k - 1) ?ys)"
    by (metis append_take_drop_id filter_append)
  ultimately have "filter ?P ?ys = filter ?P (take (k - 1) ?ys)"
    by simp
  then have "length (filter ?P ?ys) \<le> length (take (k - 1) ?ys)"
    by (simp only: length_filter_le)
  then have "length (filter ?P ?ys) \<le> k - 1" by simp
  then show ?thesis using assms by (simp add: length_filter_desc)
qed

lemma kth_is_min:
  fixes xs :: "score list"
  assumes "x \<in> set xs"
  shows "rev (sort xs) ! (length xs - 1) \<le> x"
proof -
  have "x \<in> set (rev (sort xs))" using assms by simp
  then obtain i where "i < length (rev (sort xs))" "x = rev (sort xs) ! i"
    unfolding in_set_conv_nth by blast
  then show ?thesis using sorted_desc_nth[of i "length xs - 1" xs] by simp
qed


subsection \<open>Auxiliary facts: the nucleus stage\<close>

lemma length_index_fill: "length (index_fill xs js) = length xs"
  unfolding index_fill_def by (induction js arbitrary: xs) simp_all

lemma nth_index_fill:
  "i < length xs \<Longrightarrow> index_fill xs js ! i = (if i \<in> set js then NegInf else xs ! i)"
  unfolding index_fill_def
proof (induction js arbitrary: xs)
  case Nil
  then show ?case by simp
next
  case (Cons j js)
  then show ?case by (simp add: nth_list_update)
qed

lemma length_sorted_indices: "length (sorted_indices xs) = length xs"
  by (simp add: sorted_indices_def)

lemma set_sorted_indices: "set (sorted_indices xs) = {0..<length xs}"
  by (simp add: sorted_indices_def)

lemma distinct_sorted_indices: "distinct (sorted_indices xs)"
  by (simp add: sorted_indices_def)

lemma sorted_indices_desc:
  fixes xs :: "score list"
  assumes "i \<le> j" "j < length xs"
  shows "xs ! (sorted_indices xs ! j) \<le> xs ! (sorted_indices xs ! i)"
proof -
  let ?l = "sort_key (\<lambda>i. xs ! i) (rev [0..<length xs])"
  have "sorted (map (\<lambda>i. xs ! i) ?l)" by (rule sorted_sort_key)
  then have "sorted (rev (map (\<lambda>i. xs ! i) (rev ?l)))" by (simp add: rev_map)
  then have "map (\<lambda>i. xs ! i) (rev ?l) ! j \<le> map (\<lambda>i. xs ! i) (rev ?l) ! i"
    using assms by (intro sorted_rev_nth_mono) simp_all
  then show ?thesis using assms by (simp add: sorted_indices_def)
qed

lemma first_sorted_is_max:
  fixes xs :: "score list"
  assumes "i < length xs"
  shows "xs ! i \<le> xs ! (sorted_indices xs ! 0)"
proof -
  have "i \<in> set (sorted_indices xs)" using assms by (simp add: set_sorted_indices)
  then obtain j where j: "j < length xs" "sorted_indices xs ! j = i"
    by (auto simp: in_set_conv_nth length_sorted_indices)
  then show ?thesis using sorted_indices_desc [of 0 j xs] by simp
qed

lemma length_cumsum_from: "length (cumsum_from acc ps) = length ps"
  by (induction ps arbitrary: acc) simp_all

lemma cumsum_from_lower:
  "\<forall>p \<in> set ps. 0 \<le> p \<Longrightarrow> c \<in> set (cumsum_from acc ps) \<Longrightarrow> acc \<le> c"
proof (induction ps arbitrary: acc)
  case Nil
  then show ?case by simp
next
  case (Cons p ps)
  then show ?case by fastforce
qed

lemma sorted_cumsum_from:
  "\<forall>p \<in> set ps. 0 \<le> p \<Longrightarrow> sorted (cumsum_from acc ps)"
proof (induction ps arbitrary: acc)
  case Nil
  then show ?case by simp
next
  case (Cons p ps)
  then show ?case using cumsum_from_lower [of ps _ "acc + p"] by auto
qed

lemma exp_score_nonneg: "0 \<le> exp_score x"
  by (cases x) simp_all

lemma softmax_nonneg: "p \<in> set (softmax v) \<Longrightarrow> 0 \<le> p"
  by (auto simp: softmax_def intro!: divide_nonneg_nonneg sum_list_nonneg exp_score_nonneg)

lemma length_cumulative_probs: "length (cumulative_probs xs) = length xs"
  by (simp add: cumulative_probs_def cumsum_def length_cumsum_from softmax_def
      sorted_logits_def length_sorted_indices)

lemma sorted_cumulative_probs: "sorted (cumulative_probs xs)"
  by (simp add: cumulative_probs_def cumsum_def sorted_cumsum_from softmax_nonneg)

lemma crossing_iff:
  fixes cum :: "real list"
  assumes "sorted cum" "i < length cum"
  shows "top_p < cum ! i \<longleftrightarrow> length (takeWhile (\<lambda>c. c \<le> top_p) cum) \<le> i"
proof
  let ?f = "length (takeWhile (\<lambda>c. c \<le> top_p) cum)"
  assume "top_p < cum ! i"
  show "?f \<le> i"
  proof (rule ccontr)
    assume "\<not> ?f \<le> i"
    then have "i < ?f" by simp
    then have "takeWhile (\<lambda>c. c \<le> top_p) cum ! i \<in> set (takeWhile (\<lambda>c. c \<le> top_p) cum)"
      by (rule nth_mem)
    then have "takeWhile (\<lambda>c. c \<le> top_p) cum ! i \<le> top_p"
      by (rule set_takeWhileD [THEN conjunct2])
    then have "cum ! i \<le> top_p" using \<open>i < ?f\<close> by (simp add: takeWhile_nth)
    then show False using \<open>top_p < cum ! i\<close> by simp
  qed
next
  let ?f = "length (takeWhile (\<lambda>c. c \<le> top_p) cum)"
  assume le: "?f \<le> i"
  then have "?f < length cum" using assms by simp
  then have "\<not> cum ! ?f \<le> top_p" by (rule nth_length_takeWhile)
  moreover have "cum ! ?f \<le> cum ! i" using assms le by (simp add: sorted_nth_mono)
  ultimately show "top_p < cum ! i" by simp
qed

lemma sorted_indices_to_remove_nth:
  assumes "j < length xs"
  shows "sorted_indices_to_remove xs top_p ! j
           = (length (takeWhile (\<lambda>c. c \<le> top_p) (cumulative_probs xs)) < j)"
proof (cases j)
  case 0
  then show ?thesis by (simp add: sorted_indices_to_remove_def shift_right_def)
next
  case (Suc i)
  let ?cum = "cumulative_probs xs"
  have i: "i < length ?cum" using Suc assms by (simp add: length_cumulative_probs)
  have "sorted_indices_to_remove xs top_p ! j = butlast (map (\<lambda>c. top_p < c) ?cum) ! i"
    using Suc by (simp add: sorted_indices_to_remove_def shift_right_def)
  also have "\<dots> = (top_p < ?cum ! i)"
    using Suc assms i by (simp add: nth_butlast length_cumulative_probs)
  also have "\<dots> = (length (takeWhile (\<lambda>c. c \<le> top_p) ?cum) \<le> i)"
    using crossing_iff [OF sorted_cumulative_probs i] .
  finally show ?thesis using Suc by auto
qed

lemma length_sorted_indices_to_remove:
  "xs \<noteq> [] \<Longrightarrow> length (sorted_indices_to_remove xs top_p) = length xs"
  by (simp add: sorted_indices_to_remove_def shift_right_def length_cumulative_probs)

lemma set_masked_select:
  assumes "length js = length m"
  shows "x \<in> set (map fst (filter snd (zip js m))) \<longleftrightarrow> (\<exists>i<length js. js ! i = x \<and> m ! i)"
proof
  assume "x \<in> set (map fst (filter snd (zip js m)))"
  then obtain b where "(x, b) \<in> set (zip js m)" "b" by auto
  then show "\<exists>i<length js. js ! i = x \<and> m ! i"
    using assms by (auto simp: set_zip)
next
  assume "\<exists>i<length js. js ! i = x \<and> m ! i"
  then obtain i where i: "i < length js" "js ! i = x" "m ! i" by blast
  then have "(x, True) \<in> set (zip js m)"
    using assms by (auto simp: set_zip intro!: exI [of _ i])
  then have "(x, True) \<in> set (filter snd (zip js m))" by simp
  then show "x \<in> set (map fst (filter snd (zip js m)))" by force
qed

lemma removed_iff:
  assumes "xs \<noteq> []" "j < length xs"
  shows "sorted_indices xs ! j \<in> set (top_p_indices_to_remove xs top_p)
           \<longleftrightarrow> length (takeWhile (\<lambda>c. c \<le> top_p) (cumulative_probs xs)) < j"
proof -
  let ?si = "sorted_indices xs" and ?m = "sorted_indices_to_remove xs top_p"
  have len: "length ?si = length xs" "length ?m = length xs"
    using assms by (simp_all add: length_sorted_indices length_sorted_indices_to_remove)
  have "?si ! j \<in> set (top_p_indices_to_remove xs top_p)
          \<longleftrightarrow> (\<exists>i<length ?si. ?si ! i = ?si ! j \<and> ?m ! i)"
    unfolding top_p_indices_to_remove_def
    by (rule set_masked_select) (simp add: len)
  also have "\<dots> \<longleftrightarrow> ?m ! j"
    using assms len distinct_sorted_indices [of xs]
    by (auto simp: nth_eq_iff_index_eq)
  finally show ?thesis using assms by (simp add: sorted_indices_to_remove_nth)
qed


subsection \<open>Filtering disabled\<close>

text \<open>
  Claim C8.  With \<open>top_k = 0\<close> and \<open>top_p = 0\<close> filtering is disabled: the call
  returns the tensor it was given and the store, hence the contents of the tensor,
  is unchanged.
\<close>

theorem filtering_disabled_identity:
  "top_k_top_p_filtering logits 0 0 h = Inr (logits, h)"
  by (simp add: top_k_top_p_filtering_def)

subsection \<open>Top-k filtering\<close>

text \<open>
  Claim C6.  With \<open>top_k > 0\<close> (and the nucleus stage off) let \<open>k\<close> be the minimum
  of \<open>top_k\<close> and the vocabulary size and \<open>kth\<close> the \<open>k\<close>-th largest score.  The
  filter returns the tensor with exactly the entries strictly below \<open>kth\<close> set to
  negative infinity and every other entry, ties with \<open>kth\<close> included, unchanged.
  At least \<open>k\<close> entries are kept, fewer than \<open>k\<close> entries lie strictly above
  \<open>kth\<close>, and for \<open>top_k\<close> at least the vocabulary size nothing changes.
\<close>

theorem top_k_stage_spec:
  fixes h :: heap and a :: addr and top_k :: int and top_p :: real
  assumes "0 < top_k" and "top_p \<le> 0"
  defines "k \<equiv> nat (min top_k (int (length (h a))))"
  defines "kth \<equiv> rev (sort (h a)) ! (k - 1)"
  shows "\<exists>out. top_k_top_p_filtering a top_k top_p h = Inr (a, h(a := out))
           \<and> length out = length (h a)
           \<and> (\<forall>i<length (h a). out ! i = (if h a ! i < kth then NegInf else h a ! i))
           \<and> (h a \<noteq> [] \<longrightarrow> k \<le> length (filter (\<lambda>x. kth \<le> x) (h a)))
           \<and> (h a \<noteq> [] \<longrightarrow> length (filter (\<lambda>x. kth < x) (h a)) < k)
           \<and> (int (length (h a)) \<le> top_k \<longrightarrow> out = h a)"
proof (cases "h a = []")
  case True
  then have "top_k_top_p_filtering a top_k top_p h = Inr (a, h(a := []))"
    using assms by (simp add: top_k_top_p_filtering_def fun_upd_idem)
  then show ?thesis using True by simp
next
  case False
  let ?xs = "h a"
  let ?out = "map (\<lambda>x. if x < kth then NegInf else x) ?xs"
  have k: "0 < k" "k \<le> length ?xs"
    using False assms by (auto simp: k_def)
  have thr: "last (torch_topk ?xs k) = kth"
    using k by (simp add: kth_largest_last kth_def)
  have "min top_k (int (length ?xs)) > 0" using False assms by simp
  then have run: "top_k_top_p_filtering a top_k top_p h = Inr (a, h(a := ?out))"
    using assms(2) thr by (simp add: top_k_top_p_filtering_def masked_fill_top_k_eq k_def)
  have noop: "?out = ?xs" if "int (length ?xs) \<le> top_k"
  proof -
    have "k = length ?xs" using that by (simp add: k_def)
    then have "\<forall>x \<in> set ?xs. kth \<le> x"
      using kth_is_min [of _ ?xs] by (simp add: kth_def)
    then have "\<forall>x \<in> set ?xs. \<not> x < kth"
      by (simp only: not_less)
    then show ?thesis by (simp add: map_idI)
  qed
  show ?thesis
    using run noop count_ge_kth [OF k] count_gt_kth [OF k]
    by (intro exI [of _ ?out]) (simp add: kth_def)
qed

text \<open>
  An instance with a tie at the threshold: \<open>top_k = 2\<close> on the scores 3, 1, 2, 2
  keeps three entries.
\<close>

theorem top_k_stage_spec_witness:
  "\<exists>out. top_k_top_p_filtering 0 2 0 ((\<lambda>_. [])(0 := [Fin 3, Fin 1, Fin 2, Fin 2]))
             = Inr (0, (\<lambda>_. [])(0 := out))
         \<and> out = [Fin 3, NegInf, Fin 2, Fin 2]
         \<and> 2 \<le> length (filter (\<lambda>x. Fin 2 \<le> x) [Fin 3, Fin 1, Fin 2, Fin (2::real)])"
proof -
  let ?xs = "[Fin 3, Fin 1, Fin 2, Fin (2::real)]"
  let ?h = "(\<lambda>_. [])(0 := ?xs) :: heap"
  have hyp: "(0::int) < 2" "(0::real) \<le> 0" by simp_all
  have kth: "rev (sort (?h 0)) ! (nat (min 2 (int (length (?h 0)))) - 1) = Fin 2" by simp
  obtain out where o: "top_k_top_p_filtering 0 2 0 ?h = Inr (0, ?h(0 := out))"
      "length out = length (?h 0)"
      "\<forall>i<length (?h 0). out ! i = (if ?h 0 ! i < Fin 2 then NegInf else ?h 0 ! i)"
      "?h 0 \<noteq> [] \<longrightarrow> nat (min 2 (int (length (?h 0)))) \<le> length (filter (\<lambda>x. Fin 2 \<le> x) (?h 0))"
    using top_k_stage_spec [OF hyp, where h = ?h and a = 0] unfolding kth by blast
  have "out ! 0 = Fin 3" "out ! 1 = NegInf" "out ! 2 = Fin 2" "out ! 3 = Fin 2"
    using o(3) by simp_all
  then have "out = ?xs[1 := NegInf]"
    using o(2) by (intro nth_equalityI) (auto simp: nth_Cons' less_Suc_eq numeral_eq_Suc)
  then show ?thesis using o(1,4) by simp
qed


lemma length_softmax: "length (softmax v) = length v"
  by (simp add: softmax_def)

lemma sum_list_divide:
  fixes f :: "'a \<Rightarrow> real"
  shows "sum_list (map (\<lambda>x. f x / c) xs) = sum_list (map f xs) / c"
  by (induction xs) (simp_all add: add_divide_distrib)

lemma cumsum_from_nth:
  "i < length ps \<Longrightarrow> cumsum_from acc ps ! i = acc + sum_list (take (Suc i) ps)"
proof (induction ps arbitrary: acc i)
  case Nil
  then show ?case by simp
next
  case (Cons p ps)
  then show ?case by (cases i) simp_all
qed

lemma take_conv_map_nth:
  "k \<le> length xs \<Longrightarrow> take k xs = map (\<lambda>i. xs ! i) [0..<k]"
  by (intro nth_equalityI) simp_all

lemma sum_list_sorted_logits:
  "sum_list (map exp_score (sorted_logits xs)) = sum_list (map exp_score xs)"
proof -
  let ?g = "\<lambda>i. exp_score (xs ! i)"
  have "sum_list (map exp_score (sorted_logits xs)) = sum_list (map ?g (sorted_indices xs))"
    by (simp add: sorted_logits_def comp_def)
  also have "\<dots> = sum ?g (set (sorted_indices xs))"
    by (rule sum_list_distinct_conv_sum_set) (rule distinct_sorted_indices)
  also have "\<dots> = sum ?g (set [0..<length xs])"
    by (simp add: set_sorted_indices)
  also have "\<dots> = sum_list (map ?g [0..<length xs])"
    by (rule sum_list_distinct_conv_sum_set [symmetric]) simp
  also have "\<dots> = sum_list (map exp_score (map (\<lambda>i. xs ! i) [0..<length xs]))"
    by (simp add: comp_def)
  also have "\<dots> = sum_list (map exp_score xs)"
    by (simp only: map_nth)
  finally show ?thesis .
qed

lemma cumulative_probs_nth:
  assumes "l < length xs"
  shows "cumulative_probs xs ! l
           = sum_list (map (\<lambda>i. exp_score (xs ! (sorted_indices xs ! i))) [0..<Suc l])
               / sum_list (map exp_score xs)"
proof -
  let ?si = "sorted_indices xs"
  let ?S = "sum_list (map exp_score xs)"
  have len: "Suc l \<le> length ?si" using assms by (simp add: length_sorted_indices)
  have sm: "softmax (sorted_logits xs) = map (\<lambda>i. exp_score (xs ! i) / ?S) ?si"
    by (simp add: softmax_def sum_list_sorted_logits) (simp add: sorted_logits_def)
  have "cumulative_probs xs ! l = sum_list (take (Suc l) (softmax (sorted_logits xs)))"
    using assms
    by (simp add: cumulative_probs_def cumsum_def cumsum_from_nth length_softmax
        sorted_logits_def length_sorted_indices del: take_Suc_Cons sum_list.Cons)
  also have "\<dots> = sum_list (map (\<lambda>i. exp_score (xs ! i) / ?S) (take (Suc l) ?si))"
    by (simp only: sm take_map)
  also have "\<dots> = sum_list (map (\<lambda>i. exp_score (xs ! i) / ?S) (map (\<lambda>i. ?si ! i) [0..<Suc l]))"
    by (simp only: take_conv_map_nth [OF len])
  also have "\<dots> = sum_list (map (\<lambda>i. exp_score (xs ! (?si ! i)) / ?S) [0..<Suc l])"
    by (simp add: comp_def)
  also have "\<dots> = sum_list (map (\<lambda>i. exp_score (xs ! (?si ! i))) [0..<Suc l]) / ?S"
    by (rule sum_list_divide)
  finally show ?thesis .
qed

lemma after_crossing_iff:
  assumes "j < length xs"
  shows "length (takeWhile (\<lambda>c. c \<le> top_p) (cumulative_probs xs)) < j
           \<longleftrightarrow> (\<exists>l<j. top_p < cumulative_probs xs ! l)"
proof
  let ?cum = "cumulative_probs xs"
  let ?f = "length (takeWhile (\<lambda>c. c \<le> top_p) ?cum)"
  assume f: "?f < j"
  then have "?f < length ?cum" using assms by (simp add: length_cumulative_probs)
  then have "top_p < ?cum ! ?f"
    using crossing_iff [OF sorted_cumulative_probs, of ?f xs top_p] by simp
  then show "\<exists>l<j. top_p < ?cum ! l" using f by blast
next
  let ?cum = "cumulative_probs xs"
  assume "\<exists>l<j. top_p < ?cum ! l"
  then obtain l where l: "l < j" "top_p < ?cum ! l" by blast
  then have "l < length ?cum" using assms by (simp add: length_cumulative_probs)
  then have "length (takeWhile (\<lambda>c. c \<le> top_p) ?cum) \<le> l"
    using crossing_iff [OF sorted_cumulative_probs, of l xs top_p] l(2) by simp
  then show "length (takeWhile (\<lambda>c. c \<le> top_p) ?cum) < j" using l(1) by simp
qed

lemma nucleus_nth:
  assumes "xs \<noteq> []" "j < length xs"
  shows "index_fill xs (top_p_indices_to_remove xs top_p) ! (sorted_indices xs ! j)
           = (if \<exists>l<j. top_p < sum_list (map (\<lambda>i. exp_score (xs ! (sorted_indices xs ! i)))
                                      [0..<Suc l]) / sum_list (map exp_score xs)
              then NegInf else xs ! (sorted_indices xs ! j))"
proof -
  let ?si = "sorted_indices xs"
  have "?si ! j \<in> set ?si" using assms(2) by (simp add: length_sorted_indices)
  then have r: "?si ! j < length xs" by (simp add: set_sorted_indices)
  have "(\<exists>l<j. top_p < cumulative_probs xs ! l)
          \<longleftrightarrow> (\<exists>l<j. top_p < sum_list (map (\<lambda>i. exp_score (xs ! (?si ! i))) [0..<Suc l])
                               / sum_list (map exp_score xs))"
    using assms(2) by (auto simp: cumulative_probs_nth simp del: upt_Suc)
  then have "?si ! j \<in> set (top_p_indices_to_remove xs top_p)
          \<longleftrightarrow> (\<exists>l<j. top_p < sum_list (map (\<lambda>i. exp_score (xs ! (?si ! i))) [0..<Suc l])
                               / sum_list (map exp_score xs))"
    using removed_iff [OF assms, of top_p] after_crossing_iff [OF assms(2), of top_p] by simp
  then show ?thesis using r by (simp add: nth_index_fill del: upt_Suc)
qed

subsection \<open>Nucleus filtering\<close>




subsection \<open>Auxiliary facts: both stages\<close>

lemma top_k_stage_bounds:
  fixes xs :: "score list"
  assumes "0 < k" "k \<le> length xs"
  defines "out \<equiv> masked_fill xs (top_k_indices_to_remove xs k)"
  shows "length out = length xs"
    and "\<forall>i<length xs. out ! i = xs ! i \<or> out ! i = NegInf"
    and "\<forall>i<length xs. (\<forall>j<length xs. xs ! j \<le> xs ! i) \<longrightarrow> out ! i = xs ! i"
proof -
  let ?kth = "rev (sort xs) ! (k - 1)"
  have out: "out = map (\<lambda>x. if x < ?kth then NegInf else x) xs"
    using assms by (simp add: out_def masked_fill_top_k_eq kth_largest_last)
  show "length out = length xs" by (simp add: out)
  show "\<forall>i<length xs. out ! i = xs ! i \<or> out ! i = NegInf" by (simp add: out)
  have "?kth \<in> set (rev (sort xs))" using assms by (intro nth_mem) simp
  then have "?kth \<in> set xs" by simp
  then obtain m where m: "m < length xs" "xs ! m = ?kth" by (auto simp: in_set_conv_nth)
  show "\<forall>i<length xs. (\<forall>j<length xs. xs ! j \<le> xs ! i) \<longrightarrow> out ! i = xs ! i"
  proof (intro allI impI)
    fix i assume i: "i < length xs" "\<forall>j<length xs. xs ! j \<le> xs ! i"
    then have "?kth \<le> xs ! i" using m by metis
    then have "\<not> xs ! i < ?kth" by (simp only: not_less)
    then show "out ! i = xs ! i" using i by (simp add: out)
  qed
qed

lemma top_p_stage_bounds:
  fixes xs :: "score list" and top_p :: real
  assumes "xs \<noteq> []"
  defines "out \<equiv> index_fill xs (top_p_indices_to_remove xs top_p)"
  shows "length out = length xs"
    and "\<forall>i<length xs. out ! i = xs ! i \<or> out ! i = NegInf"
    and "sorted_indices xs ! 0 < length xs"
    and "out ! (sorted_indices xs ! 0) = xs ! (sorted_indices xs ! 0)"
proof -
  show "length out = length xs" by (simp add: out_def length_index_fill)
  show "\<forall>i<length xs. out ! i = xs ! i \<or> out ! i = NegInf"
    by (simp add: out_def nth_index_fill)
  have "sorted_indices xs ! 0 \<in> set (sorted_indices xs)"
    using assms by (intro nth_mem) (simp add: length_sorted_indices)
  then show r: "sorted_indices xs ! 0 < length xs" by (simp add: set_sorted_indices)
  have "0 < length xs" using assms by simp
  then have "sorted_indices xs ! 0 \<notin> set (top_p_indices_to_remove xs top_p)"
    using removed_iff [OF assms(1), of 0 top_p] by simp
  then show "out ! (sorted_indices xs ! 0) = xs ! (sorted_indices xs ! 0)"
    using r by (simp add: out_def nth_index_fill)
qed

lemma exists_max_index:
  fixes xs :: "score list"
  assumes "xs \<noteq> []"
  shows "\<exists>m<length xs. \<forall>j<length xs. xs ! j \<le> xs ! m"
proof -
  have "sorted_indices xs ! 0 \<in> set (sorted_indices xs)"
    using assms by (intro nth_mem) (simp add: length_sorted_indices)
  then have "sorted_indices xs ! 0 < length xs" by (simp add: set_sorted_indices)
  then show ?thesis using first_sorted_is_max [of _ xs] by blast
qed

text \<open>
  What every call of the filter on a non-empty tensor does; some entry of highest
  score is always kept.
\<close>

lemma filtering_total:
  fixes h :: heap
  assumes "h a \<noteq> []"
  shows "\<exists>out. top_k_top_p_filtering a top_k top_p h = Inr (a, h(a := out))
           \<and> length out = length (h a)
           \<and> (\<forall>i<length (h a). out ! i = h a ! i \<or> out ! i = NegInf)
           \<and> (\<exists>m<length (h a). out ! m = h a ! m \<and> (\<forall>j<length (h a). h a ! j \<le> h a ! m))"
proof -
  let ?xs = "h a"
  let ?k = "min top_k (int (length ?xs))"
  define ys where "ys = (if 0 < ?k then masked_fill ?xs (top_k_indices_to_remove ?xs (nat ?k)) else ?xs)"
  define zs where "zs = (if 0 < top_p then index_fill ys (top_p_indices_to_remove ys top_p) else ys)"
  have ys: "length ys = length ?xs"
      "\<forall>i<length ?xs. ys ! i = ?xs ! i \<or> ys ! i = NegInf"
      "\<forall>i<length ?xs. (\<forall>j<length ?xs. ?xs ! j \<le> ?xs ! i) \<longrightarrow> ys ! i = ?xs ! i"
    using top_k_stage_bounds [of "nat ?k" ?xs] by (auto simp: ys_def)
  have ne: "ys \<noteq> []" using ys(1) assms by auto
  have run: "top_k_top_p_filtering a top_k top_p h = Inr (a, h(a := zs))"
    using ne by (auto simp: top_k_top_p_filtering_def Let_def zs_def ys_def fun_upd_idem)
  have le: "ys ! i \<le> ?xs ! i" if "i < length ?xs" for i
    using ys(2) that by (metis order_refl less_eq_option_None)
  have zs1: "length zs = length ys" "\<forall>i<length ys. zs ! i = ys ! i \<or> zs ! i = NegInf"
    using top_p_stage_bounds(1,2) [OF ne, of top_p] by (simp_all add: zs_def)
  have zs: "length zs = length ?xs" "\<forall>i<length ?xs. zs ! i = ?xs ! i \<or> zs ! i = NegInf"
    using zs1 ys(1,2) by (simp, metis)
  obtain m where m: "m < length ?xs" "\<forall>j<length ?xs. ?xs ! j \<le> ?xs ! m"
    using exists_max_index [OF assms] by blast
  then have ym: "ys ! m = ?xs ! m" using ys(3) by blast
  have "\<exists>m<length ?xs. zs ! m = ?xs ! m \<and> (\<forall>j<length ?xs. ?xs ! j \<le> ?xs ! m)"
  proof (cases "0 < top_p")
    case False
    then show ?thesis using m ym by (auto simp: zs_def)
  next
    case True
    let ?s = "sorted_indices ys ! 0"
    have s: "?s < length ?xs" "zs ! ?s = ys ! ?s"
      using top_p_stage_bounds(3) [OF ne] top_p_stage_bounds(4) [OF ne, of top_p] True ys(1)
      by (simp_all add: zs_def)
    have "?xs ! m \<le> ys ! ?s"
      using first_sorted_is_max [of m ys] m(1) ys(1) ym by simp
    moreover have "ys ! ?s \<le> ?xs ! ?s" using le s(1) by simp
    moreover have "?xs ! ?s \<le> ?xs ! m" using m(2) s(1) by simp
    ultimately have eq: "ys ! ?s = ?xs ! ?s" "?xs ! ?s = ?xs ! m" by simp_all
    then have "\<forall>j<length ?xs. ?xs ! j \<le> ?xs ! ?s" using m(2) by simp
    then show ?thesis using s eq by auto
  qed
  then show ?thesis using run zs by blast
qed

subsection \<open>Filtering in place\<close>

text \<open>
  Claim C10.  The filter works in place, for every \<open>top_k\<close> and \<open>top_p\<close>, on a
  non-empty tensor: the call returns the reference it was given, and the store
  after the call is the store before with the tensor at that reference
  overwritten.  With \<open>top_k > 0\<close> the entries below the \<open>k\<close>-th largest score are
  overwritten with negative infinity (the vector \<open>ys\<close>); with \<open>top_p > 0\<close> the
  entries of \<open>ys\<close> at the sorted positions after the first one whose cumulative
  softmax probability exceeds \<open>top_p\<close> are overwritten as well.  Every other entry
  and every other tensor of the store is as before; no copy is made.
\<close>

theorem filtering_in_place:
  fixes h :: heap and logits :: addr and top_k :: int and top_p :: real
  assumes "h logits \<noteq> []"
  defines "xs \<equiv> h logits"
  defines "k \<equiv> nat (min top_k (int (length (h logits))))"
  defines "ys \<equiv> (if 0 < nat (min top_k (int (length (h logits))))
                 then map (\<lambda>x. if x < rev (sort (h logits))
                                        ! (nat (min top_k (int (length (h logits)))) - 1)
                                then NegInf else x) (h logits)
                 else h logits)"
  defines "si \<equiv> sorted_indices ys"
  defines "cum \<equiv> \<lambda>l. sum_list (map (\<lambda>i. exp_score (ys ! (sorted_indices ys ! i))) [0..<Suc l])
                        / sum_list (map exp_score ys)"
  shows "\<exists>out. top_k_top_p_filtering logits top_k top_p h = Inr (logits, h(logits := out))
           \<and> length out = length xs
           \<and> distinct si \<and> set si = {0..<length xs}
           \<and> (\<forall>j<length xs.
                 out ! (si ! j) = (if 0 < top_p \<and> (\<exists>l<j. top_p < cum l) then NegInf
                                   else ys ! (si ! j)))"
proof -
  let ?n = "length (h logits)"
  define zs where "zs = (if 0 < top_p then index_fill ys (top_p_indices_to_remove ys top_p) else ys)"
  have ys1: "ys = (if 0 < min top_k (int ?n)
                   then masked_fill (h logits) (top_k_indices_to_remove (h logits) k)
                   else h logits)"
  proof (cases "0 < min top_k (int ?n)")
    case True
    then have "0 < k" "k \<le> ?n" by (simp_all add: k_def)
    then have "last (torch_topk (h logits) k) = rev (sort (h logits)) ! (k - 1)"
      by (rule kth_largest_last)
    then show ?thesis using True by (simp add: ys_def masked_fill_top_k_eq k_def)
  next
    case False
    then have "\<not> 0 < nat (min top_k (int ?n))" by simp
    then have "ys = h logits" by (simp only: ys_def if_False)
    then show ?thesis using False by (simp only: if_False)
  qed
  have len: "length ys = ?n" by (simp add: ys_def)
  then have ne: "ys \<noteq> []" using assms(1) by auto
  have h1: "(if 0 < min top_k (int ?n)
             then h(logits := masked_fill (h logits) (top_k_indices_to_remove (h logits) k))
             else h) = h(logits := ys)"
  proof (cases "0 < min top_k (int ?n)")
    case True
    then have "ys = masked_fill (h logits) (top_k_indices_to_remove (h logits) k)"
      by (simp only: ys1 if_True)
    then show ?thesis using True by (simp only: if_True)
  next
    case False
    then have "ys = h logits" by (simp only: ys1 if_False)
    then have "h(logits := ys) = h" by (simp only: fun_upd_triv)
    then show ?thesis using False by (simp only: if_False)
  qed
  have "top_k_top_p_filtering logits top_k top_p h
          = (if 0 < top_p
             then (if (h(logits := ys)) logits = [] then Inl IndexError
                   else Inr (logits, (h(logits := ys))
                          (logits := index_fill ((h(logits := ys)) logits)
                             (top_p_indices_to_remove ((h(logits := ys)) logits) top_p))))
             else Inr (logits, h(logits := ys)))"
    unfolding top_k_top_p_filtering_def Let_def k_def [symmetric] h1 ..
  then have run: "top_k_top_p_filtering logits top_k top_p h = Inr (logits, h(logits := zs))"
    using ne by (simp add: zs_def)
  have nth: "\<forall>j<length ys. zs ! (si ! j)
               = (if 0 < top_p \<and> (\<exists>l<j. top_p < cum l) then NegInf else ys ! (si ! j))"
  proof (cases "0 < top_p")
    case True
    have "\<forall>j<length ys. index_fill ys (top_p_indices_to_remove ys top_p) ! (si ! j)
               = (if \<exists>l<j. top_p < cum l then NegInf else ys ! (si ! j))"
      unfolding si_def cum_def using nucleus_nth [OF ne, of _ top_p] by blast
    then show ?thesis using True by (simp add: zs_def)
  next
    case False
    then show ?thesis by (simp add: zs_def)
  qed
  have "length zs = ?n" by (simp add: zs_def len length_index_fill)
  moreover have "distinct si" "set si = {0..<?n}"
    by (simp_all add: si_def distinct_sorted_indices set_sorted_indices len)
  ultimately show ?thesis
    using run nth len by (intro exI [of _ zs]) (simp add: xs_def)
qed

text \<open>
  An instance in which both stages write into the caller's tensor: the top-k
  stage overwrites the last entry, the nucleus stage the second.
\<close>

theorem filtering_in_place_witness:
  "\<exists>out. top_k_top_p_filtering 0 3 (3 / 5)
            ((\<lambda>_. [])(0 := [Fin (ln 2), Fin (ln 2), Fin (ln 4), Fin 0]))
            = Inr (0, (\<lambda>_. [])(0 := out))
         \<and> out = [Fin (ln 2), NegInf, Fin (ln 4), NegInf]"
proof -
  let ?xs = "[Fin (ln 2), Fin (ln 2), Fin (ln 4), Fin 0]"
  let ?h = "(\<lambda>_. [])(0 := ?xs) :: heap"
  have ne: "?h 0 \<noteq> []" by simp
  obtain out where o: "top_k_top_p_filtering 0 3 (3 / 5) ?h = Inr (0, ?h(0 := out))"
    using filtering_in_place [where h = ?h and logits = 0 and top_k = 3 and top_p = "3 / 5", OF ne]
    by blast
  have "top_k_top_p_filtering 0 3 (3 / 5) ?h
          = Inr (0, ?h(0 := [Fin (ln 2), NegInf, Fin (ln 4), NegInf]))"
    by (simp add: filter_eval upt_rec)
  then have "?h(0 := out) = ?h(0 := [Fin (ln 2), NegInf, Fin (ln 4), NegInf])" using o by simp
  then have "out = [Fin (ln 2), NegInf, Fin (ln 4), NegInf]" by (metis fun_upd_same)
  then show ?thesis using o by (intro exI [of _ out]) simp
qed

section \<open>Properties of the sampling loop\<close>

subsection \<open>Auxiliary facts: one sample\<close>

lemma elem_le_sum_list_nonneg:
  fixes xs :: "real list"
  shows "\<forall>x \<in> set xs. 0 \<le> x \<Longrightarrow> y \<in> set xs \<Longrightarrow> y \<le> sum_list xs"
proof (induction xs)
  case Nil
  then show ?case by simp
next
  case (Cons x xs)
  then have "0 \<le> sum_list xs" by (simp add: sum_list_nonneg)
  then show ?case using Cons by auto
qed

lemma softmax_pos:
  assumes "m < length v" "v ! m = Fin x"
  shows "0 < softmax v ! m"
proof -
  have "exp_score (v ! m) \<in> set (map exp_score v)" using assms(1) by simp
  then have "exp_score (v ! m) \<le> sum_list (map exp_score v)"
    by (intro elem_le_sum_list_nonneg) (auto simp: exp_score_nonneg)
  moreover have "0 < exp_score (v ! m)" using assms(2) by simp
  ultimately show ?thesis using assms(1) by (simp add: softmax_def)
qed

lemma step_probs_total:
  assumes "out \<noteq> []" "hd out \<noteq> []" "last (hd out) \<noteq> []" "temperature \<noteq> 0"
  shows "\<exists>probs. step_probs out temperature top_k top_p = Inr probs
           \<and> 1 \<le> length (filter (\<lambda>p. 0 < p) probs)"
proof -
  define logits where "logits = map (\<lambda>x. Fin (x / temperature)) (last (hd out))"
  let ?h = "(\<lambda>_. [])(0 := logits) :: heap"
  have ntl: "next_token_logits out temperature = Inr logits"
    using assms by (cases out) (simp_all add: next_token_logits_def logits_def)
  have ne: "?h 0 \<noteq> []" using assms(3) by (simp add: logits_def)
  obtain filtered m where f: "top_k_top_p_filtering 0 top_k top_p ?h = Inr (0, ?h(0 := filtered))"
      "length filtered = length logits" "m < length logits" "filtered ! m = logits ! m"
    using filtering_total [where h = ?h and a = 0, OF ne, of top_k top_p] by auto
  have probs: "step_probs out temperature top_k top_p = Inr (softmax filtered)"
    by (simp add: step_probs_def ntl f(1))
  have "filtered ! m = Fin (last (hd out) ! m / temperature)"
    using f(3,4) by (simp add: logits_def)
  then have "0 < softmax filtered ! m" using f(2,3) by (intro softmax_pos) simp_all
  moreover have "softmax filtered ! m \<in> set (softmax filtered)"
    using f(2,3) by (intro nth_mem) (simp add: length_softmax)
  ultimately have "filter (\<lambda>p. 0 < p) (softmax filtered) \<noteq> []"
    by (simp add: filter_empty_conv) blast
  then have "1 \<le> length (filter (\<lambda>p. 0 < p) (softmax filtered))"
    by (simp add: Suc_le_eq)
  then show ?thesis using probs by blast
qed

lemma multinomial_single:
  assumes "valid_rng draw" "1 \<le> length (filter (\<lambda>p. 0 < p) probs)"
  shows "\<exists>t. multinomial draw i probs 1 = Inr [t]"
proof -
  have "valid_draw probs 1 (draw i probs 1)"
    using assms by (simp add: valid_rng_def)
  then have "length (draw i probs 1) = 1" by (simp add: valid_draw_def)
  then obtain t where "draw i probs 1 = [t]"
    by (cases "draw i probs 1") simp_all
  moreover have "filter (\<lambda>p. 0 < p) probs \<noteq> []" using assms(2) by auto
  ultimately show ?thesis by (simp add: multinomial_def)
qed

lemma sample_step_single:
  assumes "well_shaped model" "valid_rng draw" "temperature \<noteq> 0" "input_ids inputs \<noteq> []"
  shows "\<exists>t. sample_step model draw i 1 temperature top_k top_p inputs [row] = Inr [row @ [t]]"
proof -
  have "case model inputs of Inl e \<Rightarrow> False
          | Inr out \<Rightarrow> out \<noteq> [] \<and> hd out \<noteq> [] \<and> last (hd out) \<noteq> []"
    using assms(1,4) unfolding well_shaped_def by blast
  then obtain out where out: "model inputs = Inr out" "out \<noteq> []" "hd out \<noteq> []" "last (hd out) \<noteq> []"
    by (cases "model inputs") simp_all
  obtain probs where probs: "step_probs out temperature top_k top_p = Inr probs"
      "1 \<le> length (filter (\<lambda>p. 0 < p) probs)"
    using step_probs_total [OF out(2,3,4) assms(3)] by blast
  obtain t where "multinomial draw i probs 1 = Inr [t]"
    using multinomial_single [OF assms(2) probs(2)] by blast
  then show ?thesis using out(1) probs(1) by (simp add: sample_step_def cat_dim1_def)
qed

lemma encode_step_single:
  "\<exists>inputs. encode_step is_xlnet comet [row] = Inr inputs"
  by (simp add: encode_step_def cat_dim1_def Let_def)

lemma encode_input_ids_nonempty:
  "encode_step is_xlnet comet [row] = Inr inputs \<Longrightarrow> input_ids inputs \<noteq> []"
  by (auto simp: encode_step_def cat_dim1_def Let_def split: if_splits option.splits)

lemma sample_loop_single:
  assumes "well_shaped model" "valid_rng draw" "temperature \<noteq> 0"
  shows "\<exists>toks calls'. sample_loop model draw 1 temperature top_k top_p is_xlnet comet n i [row] calls
             = (calls @ calls', Inr [row @ toks])
           \<and> length toks = n \<and> length calls' = n"
proof (induction n arbitrary: i row calls)
  case 0
  then show ?case by simp
next
  case (Suc n)
  obtain inputs where enc: "encode_step is_xlnet comet [row] = Inr inputs"
    using encode_step_single by blast
  obtain t where st: "sample_step model draw i 1 temperature top_k top_p inputs [row] = Inr [row @ [t]]"
    using sample_step_single [OF assms encode_input_ids_nonempty [OF enc]] by blast
  obtain toks calls' where ih:
      "sample_loop model draw 1 temperature top_k top_p is_xlnet comet n (Suc i) [row @ [t]] (calls @ [inputs])
         = ((calls @ [inputs]) @ calls', Inr [(row @ [t]) @ toks])"
      "length toks = n" "length calls' = n"
    using Suc.IH by blast
  show ?case
    using enc st ih
    by (intro exI [of _ "t # toks"] exI [of _ "inputs # calls'"]) simp
qed

lemma sample_loop_calls:
  assumes "sample_loop model draw num_samples temperature top_k top_p is_xlnet comet n i generated calls
             = (calls', Inr generated')"
  shows "length calls' = length calls + n"
  using assms
proof (induction n arbitrary: i generated calls)
  case 0
  then show ?case by simp
next
  case (Suc n)
  then show ?case by (fastforce split: sum.splits)
qed

lemma valid_rng_first_rng: "valid_rng first_rng"
proof -
  have a: "length (filter (\<lambda>t. 0 < probs ! t) [0..<length probs]) = length (filter (\<lambda>p. 0 < p) probs)"
    for probs :: "real list"
  proof -
    have "map (\<lambda>t. probs ! t) (filter (\<lambda>t. 0 < probs ! t) [0..<length probs])
            = filter (\<lambda>p. 0 < p) (map (\<lambda>t. probs ! t) [0..<length probs])"
      by (simp add: filter_map comp_def)
    then have "length (filter (\<lambda>t. 0 < probs ! t) [0..<length probs])
            = length (filter (\<lambda>p. 0 < p) (map (\<lambda>t. probs ! t) [0..<length probs]))"
      by (metis length_map)
    then show ?thesis by (simp add: map_nth)
  qed
  show ?thesis
    unfolding valid_rng_def valid_draw_def first_rng_def
    by (auto simp: a list_all_iff dest!: in_set_takeD)
qed

subsection \<open>The permutation-mode input\<close>

text \<open>
  Claim C9.  In permutation mode, for a current sequence \<open>row\<close> of length \<open>L\<close>
  (a batch of one row), the input of the model is the sequence with one
  placeholder token 0 appended, a mask of \<open>L + 1\<close> rows and \<open>L + 1\<close> columns in
  which the one masked cell of every row is in the placeholder column \<open>L\<close>, and
  a target map of \<open>L + 1\<close> entries that is 0 except for a 1 at position \<open>L\<close>.
\<close>

theorem permutation_step_input:
  fixes row :: "int list"
  defines "L \<equiv> length row"
  shows "\<exists>pm tm. encode_step True comet [row]
             = Inr \<lparr>input_ids = [row @ [0]], comet_input = None, comet_mask = None,
                    perm_mask = Some [pm], target_mapping = Some [[tm]]\<rparr>
           \<and> length pm = L + 1
           \<and> (\<forall>r<L + 1. length (pm ! r) = L + 1
                  \<and> (\<forall>c<L + 1. pm ! r ! c = (if c = L then 1 else 0)))
           \<and> length tm = L + 1
           \<and> (\<forall>c<L + 1. tm ! c = (if c = L then 1 else 0))"
proof -
  define n where "n = L + 1"
  define tm where "tm = (replicate n (0::real))[n - 1 := 1]"
  define pm where "pm = replicate n tm"
  have "encode_step True comet [row]
          = Inr \<lparr>input_ids = [row @ [0]], comet_input = None, comet_mask = None,
                 perm_mask = Some [pm], target_mapping = Some [[tm]]\<rparr>"
    by (simp add: encode_step_def cat_dim1_def Let_def L_def n_def tm_def pm_def)
  moreover have tm: "length tm = n" "\<forall>c<n. tm ! c = (if c = n - 1 then 1 else 0)"
    by (simp_all add: tm_def nth_list_update)
  moreover have "length pm = n" "\<forall>r<n. pm ! r = tm"
    by (simp_all add: pm_def)
  ultimately have "encode_step True comet [row]
             = Inr \<lparr>input_ids = [row @ [0]], comet_input = None, comet_mask = None,
                    perm_mask = Some [pm], target_mapping = Some [[tm]]\<rparr>
           \<and> length pm = n
           \<and> (\<forall>r<n. length (pm ! r) = n \<and> (\<forall>c<n. pm ! r ! c = (if c = n - 1 then 1 else 0)))
           \<and> length tm = n
           \<and> (\<forall>c<n. tm ! c = (if c = n - 1 then 1 else 0))"
    by simp
  then show ?thesis unfolding n_def by (intro exI [of _ pm] exI [of _ tm]) simp
qed

text \<open>An instance: the sequence 5, 9.\<close>

theorem permutation_step_input_witness:
  "\<exists>pm tm. encode_step True None [[5, 9]]
             = Inr \<lparr>input_ids = [[5, 9, 0]], comet_input = None, comet_mask = None,
                    perm_mask = Some [pm], target_mapping = Some [[tm]]\<rparr>
         \<and> length pm = 3 \<and> pm ! 0 = [0, 0, 1] \<and> pm ! 1 = [0, 0, 1] \<and> pm ! 2 = [0, 0, 1]
         \<and> tm = [0, 0, 1]"
proof -
  obtain pm tm where e: "encode_step True None [[5, 9]]
             = Inr \<lparr>input_ids = [[5, 9] @ [0]], comet_input = None, comet_mask = None,
                    perm_mask = Some [pm], target_mapping = Some [[tm]]\<rparr>"
      and pm: "length pm = length [5, 9 :: int] + 1"
        "\<forall>r<length [5, 9 :: int] + 1. length (pm ! r) = length [5, 9 :: int] + 1
            \<and> (\<forall>c<length [5, 9 :: int] + 1. pm ! r ! c = (if c = length [5, 9 :: int] then 1 else 0))"
      and tm: "length tm = length [5, 9 :: int] + 1"
        "\<forall>c<length [5, 9 :: int] + 1. tm ! c = (if c = length [5, 9 :: int] then 1 else 0)"
    using permutation_step_input [of None "[5, 9]"] by blast
  have three: "v = [0, 0, 1]"
    if "length v = 3" "\<forall>c<3. v ! c = (if c = 2 then 1 else 0)" for v :: "real list"
  proof -
    have "v ! 0 = 0" "v ! 1 = 0" "v ! 2 = 1" using that(2) by simp_all
    then show ?thesis
      using that(1) by (intro nth_equalityI) (auto simp: nth_Cons' less_Suc_eq numeral_eq_Suc)
  qed
  have "tm = [0, 0, 1]" using tm by (intro three) simp_all
  moreover have "pm ! r = [0, 0, 1]" if "r < 3" for r
    using pm(2) that by (intro three) simp_all
  ultimately show ?thesis using e pm(1) by (intro exI [of _ pm] exI [of _ tm]) simp
qed

subsection \<open>The auxiliary conditioning\<close>

lemma encode_step_comet:
  assumes "encode_step is_xlnet comet generated = Inr inputs"
  shows "if is_xlnet then comet_input inputs = None \<and> comet_mask inputs = None
         else comet_input inputs = map_option fst comet \<and> comet_mask inputs = map_option snd comet"
  using assms
  by (auto simp: encode_step_def Let_def split: if_splits option.splits sum.splits prod.splits)

lemma sample_loop_inputs:
  assumes "sample_loop model draw num_samples temperature top_k top_p is_xlnet comet n i generated calls
             = (calls', result)"
      and "inputs \<in> set calls'"
  shows "inputs \<in> set calls \<or> (\<exists>g. encode_step is_xlnet comet g = Inr inputs)"
  using assms
proof (induction n arbitrary: i generated calls)
  case 0
  then show ?case by simp
next
  case (Suc n)
  show ?case
  proof (cases "encode_step is_xlnet comet generated")
    case (Inl e)
    then show ?thesis using Suc.prems by simp
  next
    case enc: (Inr inp)
    show ?thesis
    proof (cases "sample_step model draw i num_samples temperature top_k top_p inp generated")
      case (Inl e)
      then show ?thesis using Suc.prems enc by auto
    next
      case (Inr g')
      then have "inputs \<in> set (calls @ [inp]) \<or> (\<exists>g. encode_step is_xlnet comet g = Inr inputs)"
        using Suc.IH [of "Suc i" g' "calls @ [inp]"] Suc.prems enc by simp
      then show ?thesis using enc by auto
    qed
  qed
qed

text \<open>
  Claim C4, amended.  When both \<^verbatim>\<open>comet_input\<close> and \<^verbatim>\<open>comet_mask\<close> are given, every
  input passed to the scoring model in causal mode carries the conditioning,
  replicated \<^verbatim>\<open>num_samples\<close> times and the same at every step; in permutation mode
  no input carries it.
\<close>

theorem comet_attachment:
  assumes "sample_sequence model draw len context num_samples temperature top_k top_p is_xlnet
             (Some ci) (Some cm) = (calls, result)"
  shows "\<forall>inputs \<in> set calls.
           if is_xlnet then comet_input inputs = None \<and> comet_mask inputs = None
           else comet_input inputs = Some (replicate (nat num_samples) ci)
              \<and> comet_mask inputs = Some (replicate (nat num_samples) cm)"
proof
  fix inputs assume mem: "inputs \<in> set calls"
  then have "calls \<noteq> []" by auto
  then obtain context_r where
      loop: "sample_loop model draw num_samples temperature top_k top_p is_xlnet
               (Some (replicate (nat num_samples) ci, replicate (nat num_samples) cm))
               (nat len) 0 context_r [] = (calls, result)"
    using assms
    by (auto simp: sample_sequence_def replicate_comet_def repeat_rows_def torch_tensor2_def
          torch_long1_def torch_long2_def split: sum.splits if_splits)
  obtain g where "encode_step is_xlnet
      (Some (replicate (nat num_samples) ci, replicate (nat num_samples) cm)) g = Inr inputs"
    using sample_loop_inputs [OF loop mem] by auto
  then show "if is_xlnet then comet_input inputs = None \<and> comet_mask inputs = None
           else comet_input inputs = Some (replicate (nat num_samples) ci)
              \<and> comet_mask inputs = Some (replicate (nat num_samples) cm)"
    using encode_step_comet by fastforce
qed

text \<open>An instance in causal mode, one step.\<close>

theorem comet_attachment_witness:
  "fst (sample_sequence (const_model [0, 0, 0]) first_rng 1 [5, 9] 1 1 0 0 False
          (Some [[1]]) (Some [[1]])) \<noteq> []
   \<and> list_all (\<lambda>inputs. comet_input inputs = Some [[[1]]] \<and> comet_mask inputs = Some [[[1]]])
        (fst (sample_sequence (const_model [0, 0, 0]) first_rng 1 [5, 9] 1 1 0 0 False
                (Some [[1]]) (Some [[1]])))"
proof -
  let ?run = "sample_sequence (const_model [0, 0, 0]) first_rng 1 [5, 9] 1 1 0 0 False
                (Some [[1]]) (Some [[1]])"
  have "?run = (fst ?run, snd ?run)" by simp
  then have "\<forall>inputs \<in> set (fst ?run).
               comet_input inputs = Some (replicate (nat 1) [[1]])
             \<and> comet_mask inputs = Some (replicate (nat 1) [[1]])"
    using comet_attachment [of "const_model [0, 0, 0]" first_rng 1 "[5, 9]" 1 1 0 0 False
        "[[1]]" "[[1]]" "fst ?run" "snd ?run"]
    by simp
  moreover have "fst ?run \<noteq> []"
    by (simp add: sample_eval filter_eval upt_rec)
  ultimately show ?thesis by (simp add: list_all_iff)
qed

text \<open>
  Claim C4 fails as it is stated, in permutation mode: the conditioning is given, and the
  only input passed to the model has neither \<^verbatim>\<open>comet_input\<close> nor \<^verbatim>\<open>comet_mask\<close>.
\<close>

theorem comet_dropped_in_permutation_mode:
  "fst (sample_sequence (const_model [0, 0, 0]) first_rng 1 [5, 9] 1 1 0 0 True
          (Some [[1]]) (Some [[1]]))
     = [\<lparr>input_ids = [[5, 9, 0]], comet_input = None, comet_mask = None,
          perm_mask = Some [[[0, 0, 1], [0, 0, 1], [0, 0, 1]]],
          target_mapping = Some [[[0, 0, 1]]]\<rparr>]"
  by (simp add: sample_eval filter_eval upt_rec)

section \<open>Properties of \<^verbatim>\<open>sample_sequence\<close>\<close>

subsection \<open>One sample: the loop runs to the end\<close>

lemma well_shaped_const_model: "logits \<noteq> [] \<Longrightarrow> well_shaped (const_model logits)"
  by (auto simp: well_shaped_def const_model_def neq_Nil_conv)

text \<open>
  With \<^verbatim>\<open>num_samples = 1\<close>, a well-shaped model and a temperature other than 0 the
  call makes exactly \<^verbatim>\<open>length\<close> steps, each appending one token, and returns one
  sequence of length \<open>context_length + length\<close>; no token ends the loop early.
  (The arithmetic on the logits is that of the reals.)
\<close>

lemma sample_sequence_single:
  assumes "well_shaped model" "valid_rng draw" "temperature \<noteq> 0" "list_all int64 context"
  shows "\<exists>toks calls. sample_sequence model draw len context 1 temperature top_k top_p is_xlnet
                          None None = (calls, Inr [context @ toks])
           \<and> length toks = nat len \<and> length calls = nat len"
proof -
  obtain toks calls' where
      "sample_loop model draw 1 temperature top_k top_p is_xlnet None (nat len) 0 [context] []
         = ([] @ calls', Inr [context @ toks])" "length toks = nat len" "length calls' = nat len"
    using sample_loop_single [OF assms(1-3)] by blast
  then show ?thesis
    using assms(4)
    by (intro exI [of _ toks] exI [of _ calls'])
       (simp add: sample_sequence_def torch_long1_def repeat_rows_def replicate_comet_def)
qed

text \<open>A call that returns a tensor has called the model exactly \<^verbatim>\<open>length\<close> times.\<close>

lemma sample_sequence_calls:
  assumes "sample_sequence model draw len context num_samples temperature top_k top_p is_xlnet
             comet_input' comet_mask' = (calls, Inr generated)"
  shows "length calls = nat len"
proof -
  obtain comet context_r where
      "sample_loop model draw num_samples temperature top_k top_p is_xlnet comet (nat len) 0
         context_r [] = (calls, Inr generated)"
    using assms by (auto simp: sample_sequence_def split: sum.splits)
  then show ?thesis using sample_loop_calls by fastforce
qed

subsection \<open>More than one sample\<close>

lemma cat_dim1_rows: "cat_dim1 a b = Inr c \<Longrightarrow> length a = length b"
  by (simp add: cat_dim1_def split: if_splits)

lemma sample_loop_many_rows:
  assumes "length generated \<noteq> 1"
  shows "isl (snd (sample_loop model draw num_samples temperature top_k top_p is_xlnet comet
                     (Suc n) i generated calls))"
proof (cases "encode_step is_xlnet comet generated")
  case (Inl e)
  then show ?thesis by simp
next
  case enc: (Inr inputs)
  show ?thesis
  proof (cases "sample_step model draw i num_samples temperature top_k top_p inputs generated")
    case (Inl e)
    then show ?thesis using enc by simp
  next
    case (Inr g')
    then obtain next_token where "cat_dim1 generated [next_token] = Inr g'"
      by (auto simp: sample_step_def split: sum.splits)
    then have "length generated = 1" using cat_dim1_rows by fastforce
    then show ?thesis using assms by simp
  qed
qed

text \<open>
  With \<^verbatim>\<open>num_samples\<close> other than 1 and at least one step requested, every call
  ends in an exception, whatever the model and the random source.
\<close>

lemma many_samples_fail:
  assumes "num_samples \<noteq> 1" "1 \<le> len"
  shows "isl (snd (sample_sequence model draw len context num_samples temperature top_k top_p
                     is_xlnet comet_input' comet_mask'))"
proof (cases "repeat_rows num_samples context")
  case (Inl e)
  then show ?thesis by (simp add: sample_sequence_def torch_long1_def)
next
  case rep: (Inr context_r)
  then have rows: "length context_r \<noteq> 1"
    using assms(1) by (auto simp: repeat_rows_def split: if_splits)
  obtain n where n: "nat len = Suc n" using assms(2) by (cases "nat len") auto
  show ?thesis
  proof (cases "replicate_comet num_samples comet_input' comet_mask'")
    case (Inl e)
    then show ?thesis using rep by (simp add: sample_sequence_def torch_long1_def)
  next
    case (Inr comet)
    then show ?thesis
      using rep n sample_loop_many_rows [OF rows]
      by (simp add: sample_sequence_def torch_long1_def)
  qed
qed

text \<open>
  Claim C1.  The claim asks for \<open>N\<close> finished sequences of length
  \<open>context_length + length\<close> for every \<open>N \<ge> 1\<close>.  With the context 5, 9, one
  step and two samples the call raises in its first step: line 175 appends
  \<^verbatim>\<open>next_token.unsqueeze(0)\<close>, one row of two tokens, to a tensor of two rows.
\<close>

theorem two_samples_raise:
  "sample_sequence (const_model [0, 0, 0]) first_rng 1 [5, 9] 2 1 0 0 False None None
     = ([\<lparr>input_ids = [[5, 9], [5, 9]], comet_input = None, comet_mask = None,
           perm_mask = None, target_mapping = None\<rparr>],
        Inl ShapeMismatch)"
  by (simp add: sample_eval filter_eval upt_rec numeral_eq_Suc)

subsection \<open>The distribution of a step\<close>

text \<open>
  Claim C2.  The claim asks that every sample draws its next token from the
  filtered softmax distribution of its own row, independently of the others.
  With two samples, \<open>top_k = 1\<close> and a model output whose first row favours the
  tokens 0 and 1 and whose second row favours the token 2, line 172 reads the
  first row only and line 174 draws both tokens, without replacement, from its
  distribution 1/2, 1/2, 0: they are 0 and 1.  Under the distribution 0, 0, 1
  of the second row the token given to the second sample has probability 0.
\<close>

theorem second_sample_draws_from_first_row:
  "step_probs [[[0, 0, -3]], [[-3, -3, 0]]] 1 1 0 = Inr [1 / 2, 1 / 2, 0]
   \<and> multinomial first_rng 0 [1 / 2, 1 / 2, 0] 2 = Inr [0, 1]
   \<and> step_probs [[[-3, -3, 0]]] 1 1 0 = Inr [0, 0, 1]"
  by (simp add: sample_eval filter_eval upt_rec)

lemma next_token_logits_first_row:
  assumes "out \<noteq> []" "out' \<noteq> []" "hd out \<noteq> []" "hd out' \<noteq> []" "last (hd out) = last (hd out')"
  shows "next_token_logits out temperature = next_token_logits out' temperature"
  using assms by (cases out; cases out') (simp_all add: next_token_logits_def)

lemma multinomial_valid:
  assumes "valid_rng draw" "multinomial draw i probs n = Inr toks"
  shows "length toks = nat n \<and> distinct toks
       \<and> list_all (\<lambda>t. 0 \<le> t \<and> nat t < length probs \<and> 0 < probs ! nat t) toks"
proof -
  have n: "0 < n" "nat n \<le> length (filter (\<lambda>p. 0 < p) probs)"
      and toks: "toks = map int (draw i probs (nat n))"
    using assms(2) by (auto simp: multinomial_def split: if_splits)
  have "valid_draw probs (nat n) (draw i probs (nat n))"
    using assms(1) n(2) by (simp add: valid_rng_def)
  then show ?thesis
    by (simp add: toks valid_draw_def distinct_map list_all_iff)
qed

text \<open>
  The same for every step and any number of samples.  The distribution is
  computed from the last position of the first row of the model output only: two
  outputs that agree there give the same distribution, whatever their other
  rows.  All \<^verbatim>\<open>num_samples\<close> tokens of the step come from one draw without
  replacement from that distribution: they are pairwise distinct and each has
  positive probability.
\<close>

theorem shared_distribution:
  assumes "valid_rng draw"
    and "out \<noteq> []" "out' \<noteq> []" "hd out \<noteq> []" "hd out' \<noteq> []"
    and "last (hd out) = last (hd out')"
    and "step_probs out temperature top_k top_p = Inr probs"
    and "multinomial draw i probs num_samples = Inr next_token"
  shows "step_probs out' temperature top_k top_p = Inr probs
       \<and> length next_token = nat num_samples \<and> distinct next_token
       \<and> list_all (\<lambda>t. 0 \<le> t \<and> nat t < length probs \<and> 0 < probs ! nat t) next_token"
proof -
  have "step_probs out' temperature top_k top_p = step_probs out temperature top_k top_p"
    using next_token_logits_first_row [OF assms(2-6)] by (simp add: step_probs_def)
  then show ?thesis using assms(7) multinomial_valid [OF assms(1,8)] by simp
qed

text \<open>An instance: the two rows of the example above, and the first row alone.\<close>

theorem shared_distribution_witness:
  "step_probs [[[0, 0, -3]]] 1 1 0 = Inr [1 / 2, 1 / 2, 0]
   \<and> distinct [0, 1 :: int]
   \<and> list_all (\<lambda>t. 0 \<le> t \<and> nat t < length [1 / 2, 1 / 2, 0 :: real]
                  \<and> 0 < [1 / 2, 1 / 2, 0 :: real] ! nat t) [0, 1]"
proof -
  have a: "step_probs [[[0, 0, -3]], [[-3, -3, 0]]] 1 1 0 = Inr [1 / 2, 1 / 2, 0]"
    by (simp add: sample_eval filter_eval upt_rec)
  have b: "multinomial first_rng 0 [1 / 2, 1 / 2, 0] 2 = Inr [0, 1]"
    by (simp add: sample_eval upt_rec)
  have c: "[[[0, 0, -3]], [[-3, -3, 0 :: real]]] \<noteq> []" "[[[0, 0, -3 :: real]]] \<noteq> []"
    "hd [[[0, 0, -3]], [[-3, -3, 0 :: real]]] \<noteq> []" "hd [[[0, 0, -3 :: real]]] \<noteq> []"
    "last (hd [[[0, 0, -3]], [[-3, -3, 0 :: real]]]) = last (hd [[[0, 0, -3]]])"
    by simp_all
  show ?thesis
    using shared_distribution [OF valid_rng_first_rng c a b] by simp
qed

subsection \<open>Preconditions\<close>

text \<open>
  Claim C3 fails as it is stated.  A call with the temperature -1 is not rejected:
  it runs its step and returns the finished sequence.  (With \<open>top_k = 1\<close> the
  token it appends is the one of lowest score, 0.)
\<close>

theorem negative_temperature_accepted:
  "sample_sequence (const_model [0, 1, 2]) first_rng 1 [5, 9] 1 (-1) 1 0 False None None
     = ([\<lparr>input_ids = [[5, 9]], comet_input = None, comet_mask = None,
           perm_mask = None, target_mapping = None\<rparr>],
        Inr [[5, 9, 0]])"
  by (simp add: sample_eval filter_eval upt_rec)

lemma sample_loop_first_call:
  assumes "encode_step is_xlnet comet generated = Inr inputs"
  shows "\<exists>rest result.
           sample_loop model draw num_samples temperature top_k top_p is_xlnet comet (Suc n) i
             generated calls = (calls @ inputs # rest, result)"
proof (cases "sample_step model draw i num_samples temperature top_k top_p inputs generated")
  case (Inl e)
  then show ?thesis using assms by simp
next
  case (Inr g')
  obtain calls' result where
      r: "sample_loop model draw num_samples temperature top_k top_p is_xlnet comet n (Suc i) g'
            (calls @ [inputs]) = (calls', result)"
    by (cases "sample_loop model draw num_samples temperature top_k top_p is_xlnet comet n (Suc i)
                 g' (calls @ [inputs])")
  have "\<exists>rest. calls' = (calls @ [inputs]) @ rest"
    using r
  proof (induction n arbitrary: i g' calls' result "calls" inputs)
    case 0
    then show ?case by simp
  next
    case (Suc n)
    show ?case
    proof (cases "encode_step is_xlnet comet g'")
      case (Inl e)
      then show ?thesis using Suc.prems by simp
    next
      case enc: (Inr inp)
      show ?thesis
      proof (cases "sample_step model draw (Suc i) num_samples temperature top_k top_p inp g'")
        case (Inl e)
        then show ?thesis using Suc.prems enc by auto
      next
        case (Inr g'')
        then have "sample_loop model draw num_samples temperature top_k top_p is_xlnet comet n
                     (Suc (Suc i)) g'' ((calls @ [inputs]) @ [inp]) = (calls', result)"
          using Suc.prems enc by simp
        from Suc.IH [OF this] show ?thesis by auto
      qed
    qed
  qed
  then show ?thesis using assms Inr r by auto
qed

text \<open>
  Claim C3, amended.  The function checks no precondition of its own.  The call
  fails before any step, as a single error and without the scoring model having
  been called, when the construction of a tensor before the loop fails: a token
  id of the context outside the signed 64-bit range, a negative \<^verbatim>\<open>num_samples\<close>,
  or a \<^verbatim>\<open>comet_input\<close> that is given with rows of different lengths, with an
  entry outside that range, or with a \<^verbatim>\<open>comet_mask\<close> that is missing or has rows
  of different lengths.  Nothing else is rejected before the first step: in causal
  mode with at least one step requested the scoring model is called with the
  replicated context and conditioning, whatever the temperature, \<open>top_k\<close> and
  \<open>top_p\<close> are, also for an empty context and for \<^verbatim>\<open>num_samples = 0\<close>; with no step
  requested the replicated context is returned.  A call that returns a tensor has
  made all its steps: no partial result is returned.
\<close>

theorem precondition_failures:
  fixes model :: scoring_model and num_samples len top_k :: int and temperature top_p :: real
  defines "ragged \<equiv> \<lambda>rows :: int list list. \<not> list_all (\<lambda>r. length r = length (hd rows)) rows"
  defines "ragged' \<equiv> \<lambda>rows :: real list list. \<not> list_all (\<lambda>r. length r = length (hd rows)) rows"
  shows "let rejected =
             (\<not> list_all int64 ctx \<or> num_samples < 0
              \<or> (case comet_input' of
                    None \<Rightarrow> False
                  | Some ci \<Rightarrow>
                      ragged ci \<or> \<not> list_all (list_all int64) ci
                      \<or> (case comet_mask' of None \<Rightarrow> True | Some cm \<Rightarrow> ragged' cm)));
           run = sample_sequence model draw len ctx num_samples temperature top_k top_p
                   is_xlnet comet_input' comet_mask';
           first_input =
             \<lparr>input_ids = replicate (nat num_samples) ctx,
               comet_input = map_option (replicate (nat num_samples)) comet_input',
               comet_mask = (case comet_input' of
                               None \<Rightarrow> None
                             | Some ci \<Rightarrow> map_option (replicate (nat num_samples)) comet_mask'),
               perm_mask = None, target_mapping = None\<rparr>
         in (rejected \<longrightarrow> (\<exists>e. run = ([], Inl e)))
          \<and> (\<not> rejected \<and> \<not> is_xlnet \<and> 1 \<le> len \<longrightarrow>
                (\<exists>rest result. run = (first_input # rest, result)))
          \<and> (\<not> rejected \<and> len \<le> 0 \<longrightarrow> run = ([], Inr (replicate (nat num_samples) ctx)))
          \<and> (\<forall>calls generated. run = (calls, Inr generated) \<longrightarrow> length calls = nat len)"
proof -
  let ?run = "sample_sequence model draw len ctx num_samples temperature top_k top_p
                   is_xlnet comet_input' comet_mask'"
  let ?rej = "\<not> list_all int64 ctx \<or> num_samples < 0
              \<or> (case comet_input' of
                    None \<Rightarrow> False
                  | Some ci \<Rightarrow>
                      ragged ci \<or> \<not> list_all (list_all int64) ci
                      \<or> (case comet_mask' of None \<Rightarrow> True | Some cm \<Rightarrow> ragged' cm))"
  let ?comet = "case comet_input' of
                  None \<Rightarrow> None
                | Some ci \<Rightarrow> Some (replicate (nat num_samples) ci,
                                   replicate (nat num_samples) (the comet_mask'))"
  have A: "\<exists>e. ?run = ([], Inl e)" if "?rej"
    using that
    by (auto simp: sample_sequence_def torch_long1_def torch_long2_def torch_tensor2_def
          repeat_rows_def replicate_comet_def ragged_def ragged'_def
          split: option.splits sum.splits if_splits)
  have loop: "?run = sample_loop model draw num_samples temperature top_k top_p is_xlnet ?comet
                       (nat len) 0 (replicate (nat num_samples) ctx) []" if "\<not> ?rej"
    using that
    by (auto simp: sample_sequence_def torch_long1_def torch_long2_def torch_tensor2_def
          repeat_rows_def replicate_comet_def ragged_def ragged'_def
          split: option.splits sum.splits if_splits)
  have B: "\<exists>rest result. ?run =
             (\<lparr>input_ids = replicate (nat num_samples) ctx,
               comet_input = map_option (replicate (nat num_samples)) comet_input',
               comet_mask = (case comet_input' of
                               None \<Rightarrow> None
                             | Some ci \<Rightarrow> map_option (replicate (nat num_samples)) comet_mask'),
               perm_mask = None, target_mapping = None\<rparr> # rest, result)"
    if r: "\<not> ?rej" and x: "\<not> is_xlnet" and l: "1 \<le> len"
  proof -
    obtain n where n: "nat len = Suc n" using l by (cases "nat len") auto
    have mask: "comet_input' \<noteq> None \<longrightarrow> comet_mask' \<noteq> None"
      using r by (auto split: option.splits)
    have enc: "encode_step is_xlnet ?comet (replicate (nat num_samples) ctx)
             = Inr \<lparr>input_ids = replicate (nat num_samples) ctx,
               comet_input = map_option (replicate (nat num_samples)) comet_input',
               comet_mask = (case comet_input' of
                               None \<Rightarrow> None
                             | Some ci \<Rightarrow> map_option (replicate (nat num_samples)) comet_mask'),
               perm_mask = None, target_mapping = None\<rparr>"
      using x mask by (auto simp: encode_step_def split: option.splits)
    show ?thesis
      using sample_loop_first_call [OF enc, of model draw num_samples temperature top_k top_p n 0 "[]"]
        loop [OF r] n by simp
  qed
  have C: "?run = ([], Inr (replicate (nat num_samples) ctx))"
    if r: "\<not> ?rej" and l: "len \<le> 0"
    using loop [OF r] l by simp
  have D: "\<forall>calls generated. ?run = (calls, Inr generated) \<longrightarrow> length calls = nat len"
    using sample_sequence_calls by blast
  show ?thesis unfolding Let_def using A B C D by blast
qed


text \<open>
  An instance of the first part, \<^verbatim>\<open>num_samples = -1\<close>, and one of the second: the
  temperature 0 and an empty context reach the scoring model.
\<close>

theorem precondition_failures_witness:
  "(\<exists>e. sample_sequence (const_model [0, 1, 2]) first_rng 1 [5, 9] (- 1) 1 0 0 False None None
          = ([], Inl e))
   \<and> (\<exists>rest result.
         sample_sequence (const_model [0, 1, 2]) first_rng 1 [] 1 0 0 0 False None None
           = (\<lparr>input_ids = [[]], comet_input = None, comet_mask = None,
                perm_mask = None, target_mapping = None\<rparr> # rest, result))"
proof -
  have "\<exists>e. sample_sequence (const_model [0, 1, 2]) first_rng 1 [5, 9] (- 1) 1 0 0 False None None
          = ([], Inl e)"
    using precondition_failures [where model = "const_model [0, 1, 2]" and draw = first_rng
        and len = 1 and ctx = "[5, 9]" and num_samples = "- 1" and temperature = 1
        and top_k = 0 and top_p = 0 and is_xlnet = False and comet_input' = None
        and comet_mask' = None]
    by (simp add: Let_def)
  moreover have "\<exists>rest result.
         sample_sequence (const_model [0, 1, 2]) first_rng 1 [] 1 0 0 0 False None None
           = (\<lparr>input_ids = [[]], comet_input = None, comet_mask = None,
                perm_mask = None, target_mapping = None\<rparr> # rest, result)"
    using precondition_failures [where model = "const_model [0, 1, 2]" and draw = first_rng
        and len = 1 and ctx = "[]" and num_samples = 1 and temperature = 0
        and top_k = 0 and top_p = 0 and is_xlnet = False and comet_input' = None
        and comet_mask' = None]
    by (simp add: Let_def)
  ultimately show ?thesis by blast
qed

section \<open>Properties of the evaluation aggregator\<close>

lemma dict_set_fresh: "k \<notin> fst ` set d \<Longrightarrow> dict_set d k v = d @ [(k, v)]"
  by (induction d) auto

lemma record_list_fresh:
  assumes "distinct (map (\<lambda>(sc, scs, m). m) ts)"
      and "\<forall>(sc, scs, m) \<in> set ts. m \<notin> fst ` set (scores_dict st)"
  shows "record_list ts st
           = st\<lparr>output_list := output_list st @ map fst ts,
                scores_dict := scores_dict st @ map (\<lambda>(sc, scs, m). (m, StrOf sc)) ts\<rparr>"
  using assms
proof (induction ts arbitrary: st)
  case Nil
  then show ?case by simp
next
  case (Cons t ts)
  obtain sc scs m where t: "t = (sc, scs, m)" by (cases t)
  let ?st = "st\<lparr>output_list := output_list st @ [sc],
                 scores_dict := dict_set (scores_dict st) m (StrOf sc)\<rparr>"
  have fresh: "m \<notin> fst ` set (scores_dict st)" using Cons.prems(2) t by auto
  then have d: "scores_dict ?st = scores_dict st @ [(m, StrOf sc)]"
    by (simp add: dict_set_fresh)
  have "distinct (map (\<lambda>(sc, scs, m). m) ts)" using Cons.prems(1) by simp
  moreover have "\<forall>(sc', scs', m') \<in> set ts. m' \<notin> fst ` set (scores_dict ?st)"
    using Cons.prems t d by (auto simp: image_iff) 
  ultimately have "record_list ts ?st
      = ?st\<lparr>output_list := output_list ?st @ map fst ts,
            scores_dict := scores_dict ?st @ map (\<lambda>(sc, scs, m). (m, StrOf sc)) ts\<rparr>"
    by (rule Cons.IH)
  then show ?case using t d by simp
qed

lemma zip3_names:
  "map (\<lambda>(sc, scs, m). m) (zip bs (zip bss ms))
     = take (min (length bs) (length bss)) ms"
  by (intro nth_equalityI) auto

lemma bleu_step:
  fixes bs :: "real list" and bss :: "real list list"
  defines "B \<equiv> [''Bleu_1'', ''Bleu_2'', ''Bleu_3'', ''Bleu_4'']"
  defines "ts \<equiv> zip bs (zip bss [''Bleu_1'', ''Bleu_2'', ''Bleu_3'', ''Bleu_4''])"
  shows "record_list ts \<lparr>output_list = [], scores_dict = [(''model_key'', Key model_key)]\<rparr>
           = \<lparr>output_list = map fst ts,
               scores_dict = (''model_key'', Key model_key) # map (\<lambda>(sc, scs, m). (m, StrOf sc)) ts\<rparr>"
    and "fst ` set ((''model_key'', Key model_key) # map (\<lambda>(sc, scs, m). (m, StrOf sc)) ts)
           \<subseteq> {''model_key'', ''Bleu_1'', ''Bleu_2'', ''Bleu_3'', ''Bleu_4''}"
proof -
  have names: "map (\<lambda>(sc, scs, m). m) ts = take (min (length bs) (length bss)) B"
    by (simp add: ts_def B_def zip3_names)
  have "distinct B" by (simp add: B_def)
  then have d: "distinct (map (\<lambda>(sc, scs, m). m) ts)" by (simp add: names)
  have sub: "set (map (\<lambda>(sc, scs, m). m) ts) \<subseteq> set B"
    unfolding names by (rule set_take_subset)
  have mem: "m \<in> set B" if "(sc, scs, m) \<in> set ts" for sc scs m
  proof -
    have "m \<in> set (map (\<lambda>(sc, scs, m). m) ts)" using that by force
    then show ?thesis using sub by blast
  qed
  have nm: "snd (snd t) \<noteq> ''model_key''" if "t \<in> set ts" for t
  proof -
    obtain sc scs m where t: "t = (sc, scs, m)" by (cases t)
    then have "m \<in> set B" using that mem by blast
    then show ?thesis using t by (auto simp: B_def)
  qed
  have fresh: "\<forall>(sc, scs, m) \<in> set ts.
      m \<notin> fst ` set (scores_dict \<lparr>output_list = [], scores_dict = [(''model_key'', Key model_key)]\<rparr>)"
    using nm by fastforce
  show "record_list ts \<lparr>output_list = [], scores_dict = [(''model_key'', Key model_key)]\<rparr>
           = \<lparr>output_list = map fst ts,
               scores_dict = (''model_key'', Key model_key) # map (\<lambda>(sc, scs, m). (m, StrOf sc)) ts\<rparr>"
    using record_list_fresh [OF d fresh] by simp
  show "fst ` set ((''model_key'', Key model_key) # map (\<lambda>(sc, scs, m). (m, StrOf sc)) ts)
           \<subseteq> {''model_key'', ''Bleu_1'', ''Bleu_2'', ''Bleu_3'', ''Bleu_4''}"
  proof
    fix k
    assume "k \<in> fst ` set ((''model_key'', Key model_key)
                               # map (\<lambda>(sc, scs, m). (m, StrOf sc)) ts)"
    then consider "k = ''model_key''" | sc scs where "(sc, scs, k) \<in> set ts"
      by force
    then show "k \<in> {''model_key'', ''Bleu_1'', ''Bleu_2'', ''Bleu_3'', ''Bleu_4''}"
    proof cases
      case 1
      then show ?thesis by simp
    next
      case 2
      then have "k \<in> set B" by (rule mem)
      then show ?thesis by (simp add: B_def)
    qed
  qed
qed

text \<open>
  Claim C5, amended.  The scorers run in order and nothing catches an exception.
  If a scorer raises, \<^verbatim>\<open>evaluate\<close> raises that exception at once: the scorers after
  it are not called and the results file is unchanged.  Only when all five
  succeed is one line appended to the results file, holding the model key, the
  BLEU scores as strings and the four other scores, and the list of all scores
  returned.
\<close>

theorem evaluate_stops_at_first_failure:
  fixes gts :: 'g and res :: 'r
    and bleu :: "'g \<Rightarrow> 'r \<Rightarrow> error + (real list \<times> real list list)"
    and meteor rouge cider bert_score :: "'g \<Rightarrow> 'r \<Rightarrow> error + (real \<times> real list)"
  defines "B \<equiv> [''Bleu_1'', ''Bleu_2'', ''Bleu_3'', ''Bleu_4'']"
  shows "evaluate bleu meteor rouge cider bert_score model_key gts res results_file =
     (case bleu gts res of
        Inl e \<Rightarrow> (([B], results_file), Inl e)
      | Inr (bs, bss) \<Rightarrow>
          (case meteor gts res of
             Inl e \<Rightarrow> (([B, [''METEOR'']], results_file), Inl e)
           | Inr (m, ms) \<Rightarrow>
               (case rouge gts res of
                  Inl e \<Rightarrow> (([B, [''METEOR''], [''ROUGE_L'']], results_file), Inl e)
                | Inr (r, rs) \<Rightarrow>
                    (case cider gts res of
                       Inl e \<Rightarrow>
                         (([B, [''METEOR''], [''ROUGE_L''], [''CIDEr'']], results_file), Inl e)
                     | Inr (c, cs) \<Rightarrow>
                         (case bert_score gts res of
                            Inl e \<Rightarrow>
                              (([B, [''METEOR''], [''ROUGE_L''], [''CIDEr''], [''Bert Score'']],
                                results_file), Inl e)
                          | Inr (s, ss) \<Rightarrow>
                              (([B, [''METEOR''], [''ROUGE_L''], [''CIDEr''], [''Bert Score'']],
                                results_file @
                                  [(''model_key'', Key model_key)
                                   # map (\<lambda>(sc, scs, name). (name, StrOf sc)) (zip bs (zip bss B))
                                   @ [(''METEOR'', Num m), (''ROUGE_L'', Num r),
                                      (''CIDEr'', Num c), (''Bert Score'', Num s)]]),
                               Inr (map fst (zip bs (zip bss B)) @ [m, r, c, s])))))))"
proof (cases "bleu gts res")
  case (Inl e)
  then show ?thesis by (simp add: evaluate_def B_def)
next
  case b: (Inr p)
  obtain bs bss where p: "p = (bs, bss)" by (cases p)
  let ?ts = "zip bs (zip bss [''Bleu_1'', ''Bleu_2'', ''Bleu_3'', ''Bleu_4''])"
  define D where "D = (''model_key'', Key model_key) # map (\<lambda>(sc, scs, m). (m, StrOf sc)) ?ts"
  note st = bleu_step(1) [of bs bss model_key, folded D_def]
  note K = bleu_step(2) [of model_key bs bss, folded D_def]
  have nk: "k \<notin> fst ` set D"
    if "k \<notin> {''model_key'', ''Bleu_1'', ''Bleu_2'', ''Bleu_3'', ''Bleu_4''}" for k
    using K that by blast
  have k1: "dict_set D ''METEOR'' v = D @ [(''METEOR'', v)]" for v
    by (rule dict_set_fresh, rule nk) simp
  have k2: "dict_set (D @ [(''METEOR'', v)]) ''ROUGE_L'' w
              = D @ [(''METEOR'', v), (''ROUGE_L'', w)]" for v w
  proof -
    have "''ROUGE_L'' \<notin> fst ` set D" by (rule nk) simp
    then have "''ROUGE_L'' \<notin> fst ` set (D @ [(''METEOR'', v)])" by simp
    then show ?thesis by (simp add: dict_set_fresh)
  qed
  have k3: "dict_set (D @ [(''METEOR'', v), (''ROUGE_L'', w)]) ''CIDEr'' x
              = D @ [(''METEOR'', v), (''ROUGE_L'', w), (''CIDEr'', x)]" for v w x
  proof -
    have "''CIDEr'' \<notin> fst ` set D" by (rule nk) simp
    then have "''CIDEr'' \<notin> fst ` set (D @ [(''METEOR'', v), (''ROUGE_L'', w)])" by simp
    then show ?thesis by (simp add: dict_set_fresh)
  qed
  have k4: "dict_set (D @ [(''METEOR'', v), (''ROUGE_L'', w), (''CIDEr'', x)]) ''Bert Score'' y
              = D @ [(''METEOR'', v), (''ROUGE_L'', w), (''CIDEr'', x), (''Bert Score'', y)]"
    for v w x y
  proof -
    have "''Bert Score'' \<notin> fst ` set D" by (rule nk) simp
    then have "''Bert Score''
        \<notin> fst ` set (D @ [(''METEOR'', v), (''ROUGE_L'', w), (''CIDEr'', x)])" by simp
    then show ?thesis by (simp add: dict_set_fresh)
  qed
  have D: "(''model_key'', Key model_key) # map (\<lambda>(sc, scs, m). (m, StrOf sc)) ?ts @ rest
             = D @ rest" for rest
    by (simp add: D_def)
  show ?thesis
    using b p
    by (simp add: evaluate_def B_def st k1 k2 k3 k4 D split: sum.splits prod.splits
          del: dict_set.simps)
qed

text \<open>An instance in which all scorers succeed, and one in which the third fails.\<close>

theorem evaluate_stops_at_first_failure_witness:
  "evaluate bleu_ok (score_ok 5) (score_ok 6) (score_ok 7) (score_ok 8) ''k'' () () []
     = (([[''Bleu_1'', ''Bleu_2'', ''Bleu_3'', ''Bleu_4''], [''METEOR''], [''ROUGE_L''],
          [''CIDEr''], [''Bert Score'']],
         [[(''model_key'', Key ''k''), (''Bleu_1'', StrOf 1), (''Bleu_2'', StrOf 2),
           (''Bleu_3'', StrOf 3), (''Bleu_4'', StrOf 4), (''METEOR'', Num 5),
           (''ROUGE_L'', Num 6), (''CIDEr'', Num 7), (''Bert Score'', Num 8)]]),
        Inr [1, 2, 3, 4, 5, 6, 7, 8])
   \<and> evaluate bleu_ok (score_ok 5) score_fails (score_ok 7) (score_ok 8) ''k'' () () []
     = (([[''Bleu_1'', ''Bleu_2'', ''Bleu_3'', ''Bleu_4''], [''METEOR''], [''ROUGE_L'']], []),
        Inl ScorerError)"
  using evaluate_stops_at_first_failure [of bleu_ok "score_ok 5" "score_ok 6" "score_ok 7"
      "score_ok 8" "''k''" "()" "()" "[]"]
    evaluate_stops_at_first_failure [of bleu_ok "score_ok 5" score_fails "score_ok 7"
      "score_ok 8" "''k''" "()" "()" "[]"]
  by (simp add: bleu_ok_def score_ok_def score_fails_def)

text \<open>
  Claim C5 fails as it is stated: when the second scorer (METEOR) raises, the three
  scorers after it are not called and nothing is written to the results file,
  although BLEU had succeeded.
\<close>

theorem evaluate_failure_counterexample:
  "evaluate bleu_ok score_fails (score_ok 5) (score_ok 6) (score_ok 7) ''k'' () () []
     = (([[''Bleu_1'', ''Bleu_2'', ''Bleu_3'', ''Bleu_4''], [''METEOR'']], []), Inl ScorerError)"
  by (simp add: evaluate_def bleu_ok_def score_ok_def score_fails_def)

end
